theory Spec2Isabelle
  imports Complex_Main
begin

section \<open>Population phase and heading alignment of \<open>src/main.py\<close>\<close>

text \<open>
  The program works on numpy arrays of double-precision floats. The embedding idealises a
  finite float as a \<^typ>\<open>real\<close> (a finite complex float as a \<^typ>\<open>complex\<close>): rounding and
  overflow are not modelled. The two places where the code produces a non-finite value
  from finite inputs (the mean of an empty array, a division by zero) are modelled
  explicitly, because HOL's \<open>x / 0 = 0\<close> would hide them.

  A one-dimensional array is a list; a two-dimensional array of shape \<open>(R, T)\<close> is the
  list of its \<open>R\<close> rows, each of length \<open>T\<close>.
\<close>

subsection \<open>\<open>to_phase\<close>\<close>

text \<open>
  \<^verbatim>\<open>np.linspace(start, stop, num)\<close> with the default \<^verbatim>\<open>endpoint=True\<close>:
  \<^verbatim>\<open>arange(num) * step + start\<close> with \<^verbatim>\<open>step = (stop - start) / (num - 1)\<close>, the last
  entry overwritten by \<^verbatim>\<open>stop\<close> when \<^verbatim>\<open>num > 1\<close>; for \<^verbatim>\<open>num = 1\<close> there is no step and
  numpy computes \<^verbatim>\<open>arange(num) * (stop - start) + start\<close>.
\<close>

definition np_linspace :: "real \<Rightarrow> real \<Rightarrow> nat \<Rightarrow> real list" where
  "np_linspace start stop num =
     (let delta = stop - start;
          y = map (\<lambda>i. if num > 1 then real i * (delta / real (num - 1)) + start
                         else real i * delta + start) [0..<num]
      in if num > 1 then y[num - 1 := stop] else y)"

text \<open>The slice \<^verbatim>\<open>xs[::2]\<close>; \<^verbatim>\<open>xs[1::2]\<close> is \<open>every_other (drop 1 xs)\<close>.\<close>

fun every_other :: "'a list \<Rightarrow> 'a list" where
  "every_other (x # y # xs) = x # every_other xs"
| "every_other xs = xs"

definition ncols :: "'a list list \<Rightarrow> nat" where
  "ncols m = (case m of [] \<Rightarrow> 0 | r # _ \<Rightarrow> length r)"

definition has_shape :: "'a list list \<Rightarrow> nat \<Rightarrow> nat \<Rightarrow> bool" where
  "has_shape m R T \<longleftrightarrow> length m = R \<and> (\<forall>row \<in> set m. length row = T)"

text \<open>
  \<^verbatim>\<open>v @ m\<close> for a complex vector \<open>v\<close> of shape \<open>(R,)\<close> and a real matrix \<open>m\<close> of shape
  \<open>(R, T)\<close>: entry \<open>t\<close> of the result is the sum over the rows of \<open>v[r] * m[r][t]\<close>, the
  real entries being promoted to complex. In \<open>to_phase\<close> the vector is built with the
  matrix's own row count, so the shape check of \<^verbatim>\<open>@\<close> cannot fail there.
\<close>

definition vecmat :: "complex list \<Rightarrow> real list list \<Rightarrow> complex list" where
  "vecmat v m =
     map (\<lambda>t. \<Sum>(c, row)\<leftarrow>zip v m. c * complex_of_real (row ! t)) [0..<ncols m]"

text \<open>Lines 26 and 30: the unit vectors, then the reordering \<^verbatim>\<open>circ[::2] + circ[1::2]\<close>.\<close>

definition circ :: "nat \<Rightarrow> complex list" where
  "circ n =
     (let c = map (\<lambda>x. exp (\<i> * complex_of_real x)) (np_linspace (- pi) pi n)
      in every_other c @ every_other (drop 1 c))"

definition to_phase :: "real list list \<Rightarrow> complex list" where
  "to_phase arr = vecmat (circ (length arr)) arr"

text \<open>Scalar multiple and sum of matrices (\<^verbatim>\<open>a * X\<close>, \<^verbatim>\<open>X + Y\<close>) and of complex vectors.\<close>

definition mscale :: "real \<Rightarrow> real list list \<Rightarrow> real list list" where
  "mscale a X = map (map ((*) a)) X"

definition madd :: "real list list \<Rightarrow> real list list \<Rightarrow> real list list" where
  "madd X Y = map2 (map2 (+)) X Y"

definition vscale :: "real \<Rightarrow> complex list \<Rightarrow> complex list" where
  "vscale a v = map ((*) (complex_of_real a)) v"

definition vadd :: "complex list \<Rightarrow> complex list \<Rightarrow> complex list" where
  "vadd v w = map2 (+) v w"

subsection \<open>The reference definition of the phase, in the specification's words\<close>

text \<open>
  \<open>R\<close> equally spaced angles spanning the closed interval from \<open>- pi\<close> to \<open>pi\<close>; the
  order "every other index starting at 0, then every other index starting at 1"; the
  sum over the regions of reordered unit vector times fluorescence value.
\<close>

definition spec_angle :: "nat \<Rightarrow> nat \<Rightarrow> real" where
  "spec_angle R k = - pi + real k * (2 * pi / real (R - 1))"

definition spec_order :: "nat \<Rightarrow> nat list" where
  "spec_order R = filter even [0..<R] @ filter odd [0..<R]"

definition spec_compute_phase :: "real list list \<Rightarrow> nat \<Rightarrow> nat \<Rightarrow> complex list" where
  "spec_compute_phase F R T =
     map (\<lambda>t. \<Sum>r<R. cis (spec_angle R (spec_order R ! r)) * complex_of_real (F ! r ! t))
       [0..<T]"


subsection \<open>numpy and matplotlib operations used by \<open>plot_phase_and_heading\<close>\<close>

text \<open>
  \<open>NonFin\<close> stands for a non-finite float (\<^verbatim>\<open>nan\<close> or \<^verbatim>\<open>inf\<close>). numpy produces one, with a
  warning and without raising, for the mean of an empty array and for a division by zero.
  The arrays passed to the program hold finite values.
\<close>

datatype py_error = ValueError

datatype 'a npval = Fin 'a | NonFin

datatype py_value = PyNone | PyArray "complex npval list"

text \<open>
  \<^verbatim>\<open>np.angle(z)\<close> is \<^verbatim>\<open>arctan2(z.imag, z.real)\<close>, in \<open>(- pi, pi]\<close>. At a zero the value
  of numpy depends on the signs of the two floating-point zeros: \<open>0\<close> when the real part
  is the positive zero, \<open>pi\<close> or \<open>- pi\<close> when it is the negative zero. The model has a
  single zero, where \<open>np_angle\<close> takes the value at the positive zero; \<open>zero_angles\<close>
  lists the values numpy can report for a zero.
\<close>

definition arctan2 :: "real \<Rightarrow> real \<Rightarrow> real" where
  "arctan2 y x =
     (if x > 0 then arctan (y / x)
      else if x < 0 then (if y \<ge> 0 then arctan (y / x) + pi else arctan (y / x) - pi)
      else if y > 0 then pi / 2
      else if y < 0 then - (pi / 2)
      else 0)"

definition np_angle :: "complex \<Rightarrow> real" where
  "np_angle z = arctan2 (Im z) (Re z)"

definition zero_angles :: "real list" where
  "zero_angles = [0, pi, - pi]"

text \<open>\<^verbatim>\<open>np.diff(a)\<close> is \<^verbatim>\<open>a[1:] - a[:-1]\<close>; \<^verbatim>\<open>a.cumsum()\<close> the running sums.\<close>

definition np_diff :: "real list \<Rightarrow> real list" where
  "np_diff a = map2 (-) (drop 1 a) (butlast a)"

fun cumsum_from :: "real \<Rightarrow> real list \<Rightarrow> real list" where
  "cumsum_from s [] = []"
| "cumsum_from s (x # xs) = (s + x) # cumsum_from (s + x) xs"

definition np_cumsum :: "real list \<Rightarrow> real list" where
  "np_cumsum xs = cumsum_from 0 xs"

text \<open>\<^verbatim>\<open>np.mod(a, b)\<close> for \<open>b > 0\<close>: the remainder of the floored division.\<close>

definition np_mod :: "real \<Rightarrow> real \<Rightarrow> real" where
  "np_mod a b = a - b * of_int \<lfloor>a / b\<rfloor>"

text \<open>
  \<^verbatim>\<open>np.unwrap(p)\<close> with its defaults (\<^verbatim>\<open>period = 2 * pi\<close>, \<^verbatim>\<open>discont = period / 2\<close>), step
  by step as numpy computes it: the differences, their representatives in
  \<open>[- pi, pi)\<close>, the boundary value \<open>- pi\<close> turned into \<open>pi\<close> for a positive difference, the
  correction (none where the difference is below \<open>discont\<close>), and its running sum added
  to all entries but the first.
\<close>

definition np_unwrap :: "real list \<Rightarrow> real list" where
  "np_unwrap p =
     (let period = 2 * pi;
          dd = np_diff p;
          discont = period / 2;
          interval_high = period / 2;
          interval_low = - interval_high;
          ddmod = map (\<lambda>d. np_mod (d - interval_low) period + interval_low) dd;
          ddmod = map2 (\<lambda>m d. if m = interval_low \<and> d > 0 then interval_high else m) ddmod dd;
          ph_correct = map2 (-) ddmod dd;
          ph_correct = map2 (\<lambda>c d. if \<bar>d\<bar> < discont then 0 else c) ph_correct dd
      in take 1 p @ map2 (+) (drop 1 p) (np_cumsum ph_correct))"

text \<open>
  \<^verbatim>\<open>np.interp(x, xp, fp)\<close>. numpy raises \<^verbatim>\<open>ValueError\<close> when \<^verbatim>\<open>xp\<close> is empty and when
  \<^verbatim>\<open>fp\<close> and \<^verbatim>\<open>xp\<close> differ in length. For each \<^verbatim>\<open>x\<close> it returns \<^verbatim>\<open>fp[0]\<close> below \<^verbatim>\<open>xp[0]\<close>,
  \<^verbatim>\<open>fp[-1]\<close> above \<^verbatim>\<open>xp[-1]\<close>, and otherwise looks up the index \<open>j\<close> with
  \<^verbatim>\<open>xp[j] <= x < xp[j+1]\<close> and returns \<^verbatim>\<open>fp[j]\<close> if \<open>j\<close> is the last index or \<^verbatim>\<open>xp[j] == x\<close>,
  else \<^verbatim>\<open>slope * (x - xp[j]) + fp[j]\<close>. numpy finds \<open>j\<close> by binary search; on a
  non-decreasing \<^verbatim>\<open>xp\<close>, the only case numpy documents, that is the last index whose
  sample point is at most \<open>x\<close>, which \<open>search_index\<close> computes by a scan.
\<close>

definition search_index :: "real \<Rightarrow> real list \<Rightarrow> nat" where
  "search_index x xp = length (takeWhile (\<lambda>v. v \<le> x) xp) - 1"

definition interp_at :: "real list \<Rightarrow> real list \<Rightarrow> real \<Rightarrow> real" where
  "interp_at xp fp x =
     (if x < hd xp then hd fp
      else if x > last xp then last fp
      else (let j = search_index x xp
            in if j = length xp - 1 then fp ! j
               else if xp ! j = x then fp ! j
               else (fp ! (j + 1) - fp ! j) / (xp ! (j + 1) - xp ! j) * (x - xp ! j) + fp ! j))"

definition np_interp :: "real list \<Rightarrow> real list \<Rightarrow> real list \<Rightarrow> py_error + real list" where
  "np_interp x xp fp =
     (if xp = [] then Inl ValueError
      else if length fp \<noteq> length xp then Inl ValueError
      else Inr (map (interp_at xp fp) x))"

text \<open>
  Elementwise division of two one-dimensional arrays with numpy's broadcasting: equal
  lengths, or one of the two of length 1; any other pair of lengths raises \<^verbatim>\<open>ValueError\<close>.
  The divisors of the program are values of \<^verbatim>\<open>np.exp\<close>, never zero.
\<close>

definition np_divide :: "complex list \<Rightarrow> complex list \<Rightarrow> py_error + complex list" where
  "np_divide a b =
     (if length a = length b then Inr (map2 (/) a b)
      else if length a = 1 then Inr (map (\<lambda>y. hd a / y) b)
      else if length b = 1 then Inr (map (\<lambda>x. x / hd b) a)
      else Inl ValueError)"

text \<open>\<^verbatim>\<open>np.mean(a)\<close>: \<^verbatim>\<open>nan\<close> (and a warning) for an empty array.\<close>

definition np_mean :: "complex list \<Rightarrow> complex npval" where
  "np_mean a = (if a = [] then NonFin else Fin (sum_list a / of_nat (length a)))"

text \<open>
  \<^verbatim>\<open>a /= s\<close> for a complex array and a complex scalar: every entry is divided; the
  quotient by \<^verbatim>\<open>nan\<close> or by zero is not finite.
\<close>

definition idiv :: "complex list \<Rightarrow> complex npval \<Rightarrow> complex npval list" where
  "idiv a s =
     (case s of
        NonFin \<Rightarrow> map (\<lambda>_. NonFin) a
      | Fin w \<Rightarrow> if w = 0 then map (\<lambda>_. NonFin) a else map (\<lambda>z. Fin (z / w)) a)"

fun angle_val :: "complex npval \<Rightarrow> real npval" where
  "angle_val (Fin z) = Fin (np_angle z)"
| "angle_val NonFin = NonFin"

text \<open>
  The \<^verbatim>\<open>Axes\<close> object is the list of the lines drawn on it, each the \<open>x\<close> and \<open>y\<close> data of
  one \<^verbatim>\<open>ax.plot\<close> call; matplotlib raises \<^verbatim>\<open>ValueError\<close> when the two differ in length.
  Marker, colour, label and legend are not modelled.
\<close>

type_synonym line2d = "real list \<times> real npval list"

definition ax_plot :: "real list \<Rightarrow> real npval list \<Rightarrow> line2d list \<Rightarrow> py_error + line2d list" where
  "ax_plot x y ax = (if length x \<noteq> length y then Inl ValueError else Inr (ax @ [(x, y)]))"

subsection \<open>\<open>plot_phase_and_heading\<close>\<close>

text \<open>Lines 91 to 96: the offset between the phase and the heading.\<close>

definition compute_offset ::
  "real list \<Rightarrow> complex list \<Rightarrow> real list \<Rightarrow> real list \<Rightarrow> py_error + complex npval" where
  "compute_offset image_timestamps phase vr_timestamps vr_heading =
     (case np_interp vr_timestamps image_timestamps (np_unwrap (map np_angle phase)) of
        Inl e \<Rightarrow> Inl e
      | Inr a \<Rightarrow>
          (let phase_interp = map (\<lambda>x. exp (\<i> * complex_of_real x)) a
           in case np_divide phase_interp (map (\<lambda>h. exp (\<i> * complex_of_real h)) vr_heading) of
                Inl e \<Rightarrow> Inl e
              | Inr q \<Rightarrow> Inr (np_mean q)))"

text \<open>
  The function writes to one of the caller's arrays (\<^verbatim>\<open>phase /= offset\<close>), draws on \<^verbatim>\<open>ax\<close>
  and returns \<^verbatim>\<open>None\<close>. The model returns the state after the call: the four arrays the
  caller passed, the lines on the axes, and the outcome, which is the exception raised
  or the value returned. An exception leaves the arrays as they were when it was raised.
  The phase array is complex and the other three are real, so the phase array shares
  its memory with none of them.
\<close>

record call_state =
  image_timestamps_arr :: "real list"
  phase_arr :: "complex npval list"
  vr_timestamps_arr :: "real list"
  vr_heading_arr :: "real list"
  ax_lines :: "line2d list"
  outcome :: "py_error + py_value"

definition plot_phase_and_heading ::
  "real list \<Rightarrow> complex list \<Rightarrow> real list \<Rightarrow> real list \<Rightarrow> line2d list \<Rightarrow> bool \<Rightarrow> call_state" where
  "plot_phase_and_heading image_timestamps phase vr_timestamps vr_heading ax subtract_offset =
     (let s0 = \<lparr>image_timestamps_arr = image_timestamps, phase_arr = map Fin phase,
                vr_timestamps_arr = vr_timestamps, vr_heading_arr = vr_heading,
                ax_lines = ax, outcome = Inr PyNone\<rparr>
      in case (if subtract_offset
               then (case compute_offset image_timestamps phase vr_timestamps vr_heading of
                       Inl e \<Rightarrow> Inl e
                     | Inr offset \<Rightarrow> Inr (idiv phase offset))
               else Inr (map Fin phase)) of
           Inl e \<Rightarrow> s0\<lparr>outcome := Inl e\<rparr>
         | Inr ph \<Rightarrow>
            (let s1 = s0\<lparr>phase_arr := ph\<rparr>
             in case ax_plot vr_timestamps (map Fin vr_heading) ax of
                  Inl e \<Rightarrow> s1\<lparr>outcome := Inl e\<rparr>
                | Inr ax1 \<Rightarrow>
                   (case ax_plot image_timestamps (map angle_val ph) ax1 of
                      Inl e \<Rightarrow> s1\<lparr>ax_lines := ax1, outcome := Inl e\<rparr>
                    | Inr ax2 \<Rightarrow> s1\<lparr>ax_lines := ax2\<rparr>)))"

text \<open>
  The inputs the specification calls valid: \<open>T \<ge> 1\<close> imaging samples with as many
  non-decreasing timestamps, and a heading with as many behavioural timestamps.
\<close>

definition valid_input :: "real list \<Rightarrow> complex list \<Rightarrow> real list \<Rightarrow> real list \<Rightarrow> bool" where
  "valid_input image_timestamps phase vr_timestamps vr_heading \<longleftrightarrow>
     image_timestamps \<noteq> [] \<and> length phase = length image_timestamps
     \<and> sorted image_timestamps \<and> length vr_heading = length vr_timestamps"

subsection \<open>The alignment steps, in the specification's words\<close>

text \<open>
  An unwrapping of a sequence of angles: the same first entry, every entry moved by a
  whole multiple of \<open>2 * pi\<close>, and no jump of more than \<open>pi\<close> between neighbours.
\<close>

definition is_unwrapping :: "real list \<Rightarrow> real list \<Rightarrow> bool" where
  "is_unwrapping p u \<longleftrightarrow>
     length u = length p \<and> take 1 u = take 1 p
     \<and> (\<forall>k < length p. \<exists>n :: int. u ! k = p ! k + 2 * pi * of_int n)
     \<and> (\<forall>k. k + 1 < length p \<longrightarrow> \<bar>u ! (k + 1) - u ! k\<bar> \<le> pi)"

text \<open>
  Linear interpolation through the samples \<open>(x\<^sub>0, y\<^sub>0), (x\<^sub>1, y\<^sub>1), \<dots>\<close>: the first value
  before the first sample point, the last value from the last sample point on, and in
  between the point on the segment joining the two neighbouring samples.
\<close>

fun spec_interp :: "(real \<times> real) list \<Rightarrow> real \<Rightarrow> real" where
  "spec_interp [] x = 0"
| "spec_interp [(x0, y0)] x = y0"
| "spec_interp ((x0, y0) # (x1, y1) # ps) x =
     (if x < x0 then y0
      else if x < x1 then y0 + (y1 - y0) * ((x - x0) / (x1 - x0))
      else spec_interp ((x1, y1) # ps) x)"

text \<open>
  Steps 2 to 4 on an unwrapped angle \<open>u\<close>: interpolate onto the behavioural timestamps,
  re-wrap, divide elementwise by the unit complex form of the heading, and average.
  Step 5 divides the phase by that offset.
\<close>

definition spec_offset :: "real list \<Rightarrow> real list \<Rightarrow> real list \<Rightarrow> real list \<Rightarrow> complex" where
  "spec_offset image_timestamps u vr_timestamps vr_heading =
     (let interpolated = map (spec_interp (zip image_timestamps u)) vr_timestamps;
          rewrapped = map cis interpolated;
          ratios = map2 (\<lambda>w h. w / cis h) rewrapped vr_heading
      in sum_list ratios / of_nat (length vr_timestamps))"

definition spec_corrected :: "complex list \<Rightarrow> complex \<Rightarrow> complex list" where
  "spec_corrected phase offset = map (\<lambda>z. z / offset) phase"

subsection \<open>The round-trip test of the specification\<close>

text \<open>The finite values of an array, if all its entries are finite.\<close>

fun fin_list :: "'a npval list \<Rightarrow> 'a list option" where
  "fin_list [] = Some []"
| "fin_list (Fin x # xs) = map_option ((#) x) (fin_list xs)"
| "fin_list (NonFin # xs) = None"

text \<open>The angle of a phase signal interpolated onto the behavioural grid, as on lines 91 to 95.\<close>

definition interp_angle :: "real list \<Rightarrow> complex list \<Rightarrow> real list \<Rightarrow> py_error + real list" where
  "interp_angle its ph vts = np_interp vts its (np_unwrap (map np_angle ph))"

text \<open>
  The test: run the alignment, interpolate the angle of the corrected phase onto the
  behavioural grid, and compare with the heading. The result is the list of the
  differences, one for each behavioural sample.
\<close>

definition roundtrip_error ::
  "real list \<Rightarrow> complex list \<Rightarrow> real list \<Rightarrow> real list \<Rightarrow> real list option" where
  "roundtrip_error its ph vts vh =
     (case fin_list (phase_arr (plot_phase_and_heading its ph vts vh [] True)) of
        None \<Rightarrow> None
      | Some corrected \<Rightarrow>
          (case interp_angle its corrected vts of
             Inl e \<Rightarrow> None
           | Inr a \<Rightarrow> Some (map2 (-) a vh)))"

text \<open>No two consecutive samples point in exactly opposite directions.\<close>

definition no_opposite_neighbours :: "complex list \<Rightarrow> bool" where
  "no_opposite_neighbours ph \<longleftrightarrow> (\<forall>k. Suc k < length ph \<longrightarrow> sgn (ph ! Suc k) \<noteq> - sgn (ph ! k))"

subsection \<open>Auxiliary forms used in the proofs\<close>

text \<open>
  The correction \<^verbatim>\<open>np.unwrap\<close> computes for one difference \<open>d\<close> (the four elementwise
  steps of \<open>np_unwrap\<close> on a single entry).
\<close>

definition ph_correct_of :: "real \<Rightarrow> real" where
  "ph_correct_of d =
     (let m0 = np_mod (d + pi) (2 * pi) - pi;
          m = (if m0 = - pi \<and> d > 0 then pi else m0)
      in if \<bar>d\<bar> < pi then 0 else m - d)"

text \<open>The value \<^verbatim>\<open>np.interp\<close> computes from the first sample point on.\<close>

definition interp_formula :: "real list \<Rightarrow> real list \<Rightarrow> real \<Rightarrow> real" where
  "interp_formula xp fp x =
     (let j = search_index x xp
      in if j = length xp - 1 then fp ! j
         else fp ! j + (fp ! (j + 1) - fp ! j) * ((x - xp ! j) / (xp ! (j + 1) - xp ! j)))"

text \<open>
  The quotients averaged on line 96, \<^verbatim>\<open>exp(1j * a) / exp(1j * h)\<close> written as the unit
  vector of angle \<open>a - h\<close>.
\<close>

definition offset_ratios :: "real list \<Rightarrow> complex list \<Rightarrow> real list \<Rightarrow> real list \<Rightarrow> complex list" where
  "offset_ratios its ph vts vh =
     map2 (\<lambda>x h. cis (interp_at its (np_unwrap (map np_angle ph)) x - h)) vts vh"

section \<open>Properties\<close>

subsection \<open>Shapes, indexing and the reordering\<close>

lemma length_every_other: "length (every_other xs) = (length xs + 1) div 2"
  by (induction xs rule: every_other.induct) auto

lemma nth_every_other: "i < (length xs + 1) div 2 \<Longrightarrow> every_other xs ! i = xs ! (2 * i)"
proof (induction xs arbitrary: i rule: every_other.induct)
  case (1 x y xs)
  then show ?case by (cases i) auto
qed auto

lemma length_np_linspace: "length (np_linspace a b n) = n"
  by (simp add: np_linspace_def Let_def)

lemma length_circ: "length (circ n) = n"
  apply (simp add: circ_def Let_def length_every_other length_np_linspace)
  by presburger

lemma sum_list_zip_nth:
  assumes "length v = length m"
  shows "(\<Sum>(c, row)\<leftarrow>zip v m. f c row) = (\<Sum>r<length m. f (v ! r) (m ! r))"
proof -
  have "map (\<lambda>(c, row). f c row) (zip v m) = map (\<lambda>r. f (v ! r) (m ! r)) [0..<length m]"
    using assms by (intro nth_equalityI) auto
  then show ?thesis
    by (simp add: interv_sum_list_conv_sum_set_nat atLeast0LessThan)
qed

lemma ncols_shape: "has_shape m R T \<Longrightarrow> 0 < R \<Longrightarrow> ncols m = T"
  by (cases m) (auto simp: has_shape_def ncols_def)

lemma vecmat_nth:
  assumes "length v = length m" "t < ncols m"
  shows "vecmat v m ! t = (\<Sum>r<length m. v ! r * complex_of_real (m ! r ! t))"
  using assms by (simp add: vecmat_def sum_list_zip_nth)

lemma length_vecmat: "length (vecmat v m) = ncols m"
  by (simp add: vecmat_def)

lemma to_phase_nth:
  assumes "has_shape F R T" "0 < R" "t < T"
  shows "to_phase F ! t = (\<Sum>r<R. circ R ! r * complex_of_real (F ! r ! t))"
proof -
  have "length F = R" using assms by (simp add: has_shape_def)
  moreover have "ncols F = T" using assms by (simp add: ncols_shape)
  ultimately show ?thesis
    using assms by (simp add: to_phase_def vecmat_nth length_circ)
qed

lemma length_to_phase: "has_shape F R T \<Longrightarrow> 0 < R \<Longrightarrow> length (to_phase F) = T"
  by (simp add: to_phase_def length_vecmat ncols_shape)

lemma np_linspace_nth:
  assumes "2 \<le> n" "i < n"
  shows "np_linspace a b n ! i = a + real i * ((b - a) / real (n - 1))"
proof (cases "i = n - 1")
  case True
  then show ?thesis using assms by (simp add: np_linspace_def Let_def)
next
  case False
  then show ?thesis using assms by (simp add: np_linspace_def Let_def)
qed

lemma filter_even_upt: "filter even [0..<n] = map (\<lambda>i. 2 * i) [0..<(n + 1) div 2]"
proof (induction n)
  case (Suc n)
  show ?case
  proof (cases "even n")
    case True
    then have "(Suc n + 1) div 2 = Suc ((n + 1) div 2)" "(n + 1) div 2 = n div 2" by presburger+
    with True Suc show ?thesis by simp
  next
    case False
    then have "(Suc n + 1) div 2 = (n + 1) div 2" by presburger
    with False Suc show ?thesis by simp
  qed
qed simp

lemma filter_odd_upt: "filter odd [0..<n] = map (\<lambda>i. 2 * i + 1) [0..<n div 2]"
proof (induction n)
  case (Suc n)
  show ?case
  proof (cases "even n")
    case True
    then have "Suc n div 2 = n div 2" by presburger
    with True Suc show ?thesis by simp
  next
    case False
    then have "Suc n div 2 = Suc (n div 2)" "2 * (n div 2) + 1 = n" by presburger+
    with False Suc show ?thesis by simp
  qed
qed simp

lemma length_spec_order: "length (spec_order R) = R"
  by (simp add: spec_order_def filter_even_upt filter_odd_upt)

lemma spec_order_nth:
  "r < R \<Longrightarrow> spec_order R ! r =
     (if r < (R + 1) div 2 then 2 * r else 2 * (r - (R + 1) div 2) + 1)"
  by (auto simp: spec_order_def filter_even_upt filter_odd_upt nth_append)

lemma spec_order_less: "r < R \<Longrightarrow> spec_order R ! r < R"
  by (auto simp: spec_order_nth)

lemma reorder_nth:
  assumes "r < length xs"
  shows "(every_other xs @ every_other (drop 1 xs)) ! r = xs ! (spec_order (length xs) ! r)"
proof (cases "r < (length xs + 1) div 2")
  case True
  then show ?thesis
    using assms by (simp add: nth_append length_every_other nth_every_other spec_order_nth)
next
  case False
  let ?h = "(length xs + 1) div 2"
  have "r - ?h < (length (drop 1 xs) + 1) div 2" using False assms by auto
  then have "every_other (drop 1 xs) ! (r - ?h) = drop 1 xs ! (2 * (r - ?h))"
    by (rule nth_every_other)
  also have "\<dots> = xs ! (2 * (r - ?h) + 1)"
    using False assms by (subst nth_drop) auto
  finally show ?thesis
    using False assms by (simp add: nth_append length_every_other spec_order_nth)
qed

lemma circ_nth:
  assumes "2 \<le> R" "r < R"
  shows "circ R ! r = cis (spec_angle R (spec_order R ! r))"
proof -
  let ?xs = "map (\<lambda>x. exp (\<i> * complex_of_real x)) (np_linspace (- pi) pi R)"
  have len: "length ?xs = R" by (simp add: length_np_linspace)
  have "circ R ! r = ?xs ! (spec_order R ! r)"
    using reorder_nth [of r ?xs] assms len by (simp add: circ_def Let_def)
  also have "\<dots> = exp (\<i> * complex_of_real (np_linspace (- pi) pi R ! (spec_order R ! r)))"
    using assms spec_order_less [of r R] by (simp add: length_np_linspace)
  also have "np_linspace (- pi) pi R ! (spec_order R ! r) = spec_angle R (spec_order R ! r)"
    using assms spec_order_less [of r R] by (simp add: np_linspace_nth spec_angle_def)
  finally show ?thesis by (simp add: cis_conv_exp)
qed


lemma has_shape_nth: "has_shape m R T \<Longrightarrow> r < R \<Longrightarrow> length (m ! r) = T"
  by (simp add: has_shape_def)

lemma has_shape_lincomb:
  assumes "has_shape X R T" "has_shape Y R T"
  shows "has_shape (madd (mscale a X) (mscale b Y)) R T"
proof -
  have len: "length X = R" "length Y = R" using assms by (simp_all add: has_shape_def)
  have "length row = T" if "row \<in> set (madd (mscale a X) (mscale b Y))" for row
  proof -
    from that obtain r where r: "r < R" and row: "row = madd (mscale a X) (mscale b Y) ! r"
      using len by (auto simp: in_set_conv_nth madd_def mscale_def)
    have "length (X ! r) = T" "length (Y ! r) = T"
      using assms r by (simp_all add: has_shape_nth)
    then show ?thesis using r len row by (simp add: madd_def mscale_def)
  qed
  then show ?thesis using len by (simp add: has_shape_def madd_def mscale_def)
qed

lemma lincomb_nth:
  assumes "has_shape X R T" "has_shape Y R T" "r < R" "t < T"
  shows "madd (mscale a X) (mscale b Y) ! r ! t = a * X ! r ! t + b * Y ! r ! t"
proof -
  have "length X = R" "length Y = R" "length (X ! r) = T" "length (Y ! r) = T"
    using assms by (simp_all add: has_shape_def)
  then show ?thesis using assms by (simp add: madd_def mscale_def)
qed

lemma to_phase_empty: "to_phase [] = []"
  by (simp add: to_phase_def vecmat_def ncols_def)

lemma to_phase_ones:
  assumes "0 < R"
  shows "to_phase (replicate R (replicate T 1)) = replicate T (sum_list (circ R))"
proof (rule nth_equalityI)
  have sh: "has_shape (replicate R (replicate T (1::real))) R T"
    by (simp add: has_shape_def)
  show "length (to_phase (replicate R (replicate T 1))) = length (replicate T (sum_list (circ R)))"
    using sh assms by (simp add: length_to_phase)
  fix t assume "t < length (to_phase (replicate R (replicate T 1)))"
  then have t: "t < T" using sh assms by (simp add: length_to_phase)
  have "to_phase (replicate R (replicate T 1)) ! t
      = (\<Sum>r<R. circ R ! r * complex_of_real (replicate R (replicate T 1) ! r ! t))"
    using sh assms t by (rule to_phase_nth)
  also have "\<dots> = (\<Sum>r<R. circ R ! r)"
    using t by (intro sum.cong) auto
  also have "\<dots> = sum_list (circ R)"
    by (simp add: sum_list_sum_nth length_circ atLeast0LessThan)
  finally show "to_phase (replicate R (replicate T 1)) ! t = replicate T (sum_list (circ R)) ! t"
    using t by simp
qed

subsection \<open>The angle of a complex number\<close>

lemma sqrt_ratio:
  assumes "x \<noteq> 0"
  shows "sqrt (1 + (y / x)\<^sup>2) = sqrt (x\<^sup>2 + y\<^sup>2) / \<bar>x\<bar>"
proof -
  have "1 + (y / x)\<^sup>2 = (x\<^sup>2 + y\<^sup>2) / x\<^sup>2"
    using assms by (simp add: field_simps power2_eq_square)
  then show ?thesis by (simp add: real_sqrt_divide)
qed

lemma cis_arctan_ratio:
  assumes "x \<noteq> 0"
  shows "cis (arctan (y / x)) = Complex (\<bar>x\<bar> / sqrt (x\<^sup>2 + y\<^sup>2)) (y / x * \<bar>x\<bar> / sqrt (x\<^sup>2 + y\<^sup>2))"
  using assms by (simp add: complex_eq_iff cos_arctan sin_arctan sqrt_ratio)

lemma sgn_Complex: "sgn (Complex x y) = Complex (x / sqrt (x\<^sup>2 + y\<^sup>2)) (y / sqrt (x\<^sup>2 + y\<^sup>2))"
  by (simp add: complex_eq_iff sgn_eq cmod_def)

lemma cis_arctan2:
  assumes "x \<noteq> 0 \<or> y \<noteq> 0"
  shows "cis (arctan2 y x) = sgn (Complex x y)"
proof -
  consider "x > 0" | "x < 0" "y \<ge> 0" | "x < 0" "y < 0" | "x = 0" "y > 0" | "x = 0" "y < 0"
    using assms by linarith
  then show ?thesis
  proof cases
    case 1
    then show ?thesis
      by (simp add: arctan2_def cis_arctan_ratio sgn_Complex)
  next
    case 2
    then have "cis (arctan2 y x) = - cis (arctan (y / x))"
      by (simp add: arctan2_def complex_eq_iff)
    then show ?thesis using 2
      by (simp add: cis_arctan_ratio sgn_Complex complex_eq_iff)
  next
    case 3
    then have "cis (arctan2 y x) = - cis (arctan (y / x))"
      by (simp add: arctan2_def complex_eq_iff cos_diff sin_diff)
    then show ?thesis using 3
      by (simp add: cis_arctan_ratio sgn_Complex complex_eq_iff)
  next
    case 4
    then show ?thesis by (simp add: arctan2_def sgn_Complex complex_eq_iff)
  next
    case 5
    then show ?thesis by (simp add: arctan2_def sgn_Complex complex_eq_iff)
  qed
qed

lemma arctan2_bounds: "- pi < arctan2 y x \<and> arctan2 y x \<le> pi"
proof -
  have a: "- (pi / 2) < arctan (y / x)" "arctan (y / x) < pi / 2"
    by (rule arctan_lbound, rule arctan_ubound)
  have b: "x < 0 \<Longrightarrow> y \<ge> 0 \<Longrightarrow> arctan (y / x) \<le> 0"
    by (simp add: divide_nonneg_neg)
  have c: "x < 0 \<Longrightarrow> y < 0 \<Longrightarrow> arctan (y / x) > 0"
    by (simp add: divide_neg_neg)
  show ?thesis
    using a b c pi_gt_zero by (auto simp: arctan2_def)
qed

lemma cis_np_angle: "z \<noteq> 0 \<Longrightarrow> cis (np_angle z) = sgn z"
  using cis_arctan2 [of "Re z" "Im z"] by (auto simp: np_angle_def complex_eq_iff)

lemma np_angle_bounds: "- pi < np_angle z \<and> np_angle z \<le> pi"
  by (simp add: np_angle_def arctan2_bounds)

lemma np_angle_zero: "np_angle 0 = 0"
  by (simp add: np_angle_def arctan2_def)

lemma np_angle_eq_Arg: "np_angle z = Arg z"
proof (cases "z = 0")
  case True
  then show ?thesis by (simp add: np_angle_zero Arg_zero)
next
  case False
  then show ?thesis
    using cis_Arg_unique [of z "np_angle z"] np_angle_bounds [of z] by (simp add: cis_np_angle)
qed

lemma cis_eq_iff: "cis a = cis b \<longleftrightarrow> (\<exists>n :: int. a = b + 2 * pi * of_int n)"
  using sin_cos_eq_iff [of a b] by (auto simp: complex_eq_iff)

lemma sgn_complex_divide: "sgn (z / w) = sgn z / sgn (w :: complex)"
  by (simp add: sgn_eq norm_divide)

lemma np_angle_divide:
  assumes "z \<noteq> 0" "w \<noteq> 0"
  shows "\<exists>n :: int. np_angle (z / w) = np_angle z - np_angle w + 2 * pi * of_int n"
proof -
  have "cis (np_angle (z / w)) = cis (np_angle z - np_angle w)"
    using assms by (simp add: cis_np_angle sgn_complex_divide cis_divide [symmetric])
  then show ?thesis by (simp add: cis_eq_iff)
qed

lemma Arg_sgn_cong: "sgn z = sgn w \<Longrightarrow> Arg z = Arg (w :: complex)"
  by (cases "z = 0"; cases "w = 0") (auto simp: Arg_def sgn_zero_iff)

lemma np_angle_div_sgn:
  assumes "w \<noteq> 0"
  shows "np_angle (z / w) = np_angle (z / sgn w)"
proof -
  have "sgn (z / w) = sgn (z / sgn w)"
    using assms by (simp add: sgn_complex_divide)
  then show ?thesis by (simp add: np_angle_eq_Arg Arg_sgn_cong)
qed


subsection \<open>The state after \<open>plot_phase_and_heading\<close>\<close>

lemma exp_i_real: "exp (\<i> * complex_of_real x) = cis x"
  by (simp add: cis_conv_exp)

lemma length_cumsum_from: "length (cumsum_from s xs) = length xs"
  by (induction xs arbitrary: s) auto

lemma length_np_diff: "length (np_diff p) = length p - 1"
  by (simp add: np_diff_def)

lemma length_np_unwrap: "length (np_unwrap p) = length p"
  by (cases p) (simp_all add: np_unwrap_def Let_def np_cumsum_def length_cumsum_from length_np_diff)

lemma length_idiv: "length (idiv a s) = length a"
  by (simp add: idiv_def split: npval.splits)

lemma map2_map_map: "map2 f (map g xs) (map h ys) = map2 (\<lambda>x y. f (g x) (h y)) xs ys"
  by (induction xs arbitrary: ys) (auto simp: zip_Cons1 split: list.splits)

lemma compute_offset_valid:
  assumes "valid_input its ph vts vh"
  shows "compute_offset its ph vts vh = Inr (np_mean (offset_ratios its ph vts vh))"
  using assms
  by (simp add: compute_offset_def valid_input_def np_interp_def length_np_unwrap np_divide_def
      Let_def exp_i_real map2_map_map cis_divide offset_ratios_def)

lemma plot_valid:
  assumes "valid_input its ph vts vh"
  shows "plot_phase_and_heading its ph vts vh ax True =
     \<lparr>image_timestamps_arr = its, phase_arr = idiv ph (np_mean (offset_ratios its ph vts vh)),
      vr_timestamps_arr = vts, vr_heading_arr = vh,
      ax_lines = ax @ [(vts, map Fin vh), (its, map angle_val (idiv ph (np_mean (offset_ratios its ph vts vh))))],
      outcome = Inr PyNone\<rparr>"
  using assms
  by (simp add: plot_phase_and_heading_def compute_offset_valid ax_plot_def length_idiv valid_input_def)

lemma plot_False:
  "plot_phase_and_heading its ph vts vh ax False =
     (let s1 = \<lparr>image_timestamps_arr = its, phase_arr = map Fin ph,
                vr_timestamps_arr = vts, vr_heading_arr = vh, ax_lines = ax, outcome = Inr PyNone\<rparr>
      in if length vts \<noteq> length vh then s1\<lparr>outcome := Inl ValueError\<rparr>
         else if length its \<noteq> length ph
              then s1\<lparr>ax_lines := ax @ [(vts, map Fin vh)], outcome := Inl ValueError\<rparr>
         else s1\<lparr>ax_lines := ax @ [(vts, map Fin vh), (its, map (angle_val \<circ> Fin) ph)]\<rparr>)"
  by (simp add: plot_phase_and_heading_def ax_plot_def Let_def)

lemma frame_arrays:
  "image_timestamps_arr (plot_phase_and_heading its ph vts vh ax b) = its
   \<and> vr_timestamps_arr (plot_phase_and_heading its ph vts vh ax b) = vts
   \<and> vr_heading_arr (plot_phase_and_heading its ph vts vh ax b) = vh"
  by (simp add: plot_phase_and_heading_def Let_def split: sum.splits)

lemma phase_arr_True:
  "phase_arr (plot_phase_and_heading its ph vts vh ax True) =
     (case compute_offset its ph vts vh of Inl e \<Rightarrow> map Fin ph | Inr off \<Rightarrow> idiv ph off)"
  by (simp add: plot_phase_and_heading_def Let_def split: sum.splits)

subsection \<open>Interpolation\<close>

lemma search_index_Cons2:
  assumes "x1 \<le> x" "x0 \<le> x1"
  shows "search_index x (x0 # x1 # xs) = Suc (search_index x (x1 # xs))"
  using assms by (simp add: search_index_def)

lemma search_index_first:
  assumes "x0 \<le> x" "x < x1"
  shows "search_index x (x0 # x1 # xs) = 0"
  using assms by (simp add: search_index_def)

lemma spec_interp_formula:
  assumes "sorted xp" "length fp = length xp" "xp \<noteq> []" "hd xp \<le> x"
  shows "spec_interp (zip xp fp) x = interp_formula xp fp x"
  using assms
proof (induction xp arbitrary: fp)
  case Nil
  then show ?case by simp
next
  case (Cons x0 xs)
  then obtain y0 ys where fp: "fp = y0 # ys" by (cases fp) auto
  show ?case
  proof (cases xs)
    case Nil
    then show ?thesis using Cons.prems fp by (simp add: interp_formula_def search_index_def)
  next
    case (Cons x1 xs')
    then obtain y1 ys' where ys: "ys = y1 # ys'" using Cons.prems fp by (cases ys) auto
    have le: "x0 \<le> x1" using Cons.prems(1) Cons by simp
    have x0: "x0 \<le> x" using Cons.prems by simp
    show ?thesis
    proof (cases "x < x1")
      case True
      then show ?thesis
        using x0 Cons fp ys by (simp add: interp_formula_def search_index_first)
    next
      case False
      then have x1: "x1 \<le> x" by simp
      have IH: "spec_interp (zip xs ys) x = interp_formula xs ys x"
        using Cons.IH [of ys] Cons.prems fp Cons x1 by simp
      have "search_index x (x0 # xs) = Suc (search_index x xs)"
        using search_index_Cons2 [OF x1 le] Cons by simp
      then have "interp_formula (x0 # xs) (y0 # ys) x = interp_formula xs ys x"
        using Cons by (simp add: interp_formula_def Let_def)
      then show ?thesis
        using IH x0 False Cons fp ys by simp
    qed
  qed
qed

lemma search_index_less: "xp \<noteq> [] \<Longrightarrow> search_index x xp < length xp"
  using length_takeWhile_le [of "\<lambda>v. v \<le> x" xp] by (cases xp) (auto simp: search_index_def)

lemma search_index_last:
  assumes "sorted xp" "xp \<noteq> []" "last xp \<le> x"
  shows "search_index x xp = length xp - 1"
proof -
  have "v \<le> x" if "v \<in> set xp" for v
  proof -
    from that obtain i where i: "i < length xp" "v = xp ! i" by (auto simp: in_set_conv_nth)
    then have "xp ! i \<le> xp ! (length xp - 1)"
      using assms(1) by (intro sorted_nth_mono) auto
    then show ?thesis using i assms by (simp add: last_conv_nth)
  qed
  then have tw: "takeWhile (\<lambda>v. v \<le> x) xp = xp" by (simp add: takeWhile_eq_all_conv)
  show ?thesis unfolding search_index_def tw ..
qed

lemma interp_at_eq_spec:
  assumes "sorted xp" "length fp = length xp" "xp \<noteq> []"
  shows "interp_at xp fp x = spec_interp (zip xp fp) x"
proof (cases "x < hd xp")
  case True
  then show ?thesis
    using assms by (cases xp; cases fp; cases "tl xp"; cases "tl fp") (auto simp: interp_at_def)
next
  case False
  then have hd: "hd xp \<le> x" by simp
  have spec: "spec_interp (zip xp fp) x = interp_formula xp fp x"
    using assms hd by (rule spec_interp_formula)
  show ?thesis
  proof (cases "x > last xp")
    case True
    then have "search_index x xp = length xp - 1"
      using assms by (simp add: search_index_last)
    moreover have "fp \<noteq> []" using assms by auto
    ultimately show ?thesis
      using True False assms spec by (simp add: interp_at_def interp_formula_def last_conv_nth)
  next
    case False
    then show ?thesis
      using hd spec by (auto simp: interp_at_def interp_formula_def Let_def)
  qed
qed

subsection \<open>Unwrapping\<close>

lemma map2_map_same: "map2 f (map g xs) xs = map (\<lambda>x. f (g x) x) xs"
  by (induction xs) auto

lemma np_unwrap_alt:
  "np_unwrap p = take 1 p @ map2 (+) (drop 1 p) (np_cumsum (map ph_correct_of (np_diff p)))"
proof -
  have "map2 (\<lambda>c d. if \<bar>d\<bar> < 2 * pi / 2 then 0 else c)
          (map2 (-) (map2 (\<lambda>m d. if m = - (2 * pi / 2) \<and> d > 0 then 2 * pi / 2 else m)
                 (map (\<lambda>d. np_mod (d - - (2 * pi / 2)) (2 * pi) + - (2 * pi / 2)) dd) dd) dd) dd
        = map ph_correct_of dd" for dd
    by (induction dd) (auto simp: ph_correct_of_def Let_def)
  then show ?thesis by (simp add: np_unwrap_def Let_def)
qed

lemma cumsum_from_nth:
  "k < length xs \<Longrightarrow> cumsum_from s xs ! k = s + sum_list (take (Suc k) xs)"
proof (induction xs arbitrary: s k)
  case (Cons x xs)
  then show ?case by (cases k) (auto simp: algebra_simps)
qed simp

lemma np_diff_nth: "Suc k < length p \<Longrightarrow> np_diff p ! k = p ! Suc k - p ! k"
  by (simp add: np_diff_def nth_butlast)

lemma np_unwrap_nth:
  assumes "k < length p"
  shows "np_unwrap p ! k = p ! k + sum_list (take k (map ph_correct_of (np_diff p)))"
proof (cases k)
  case 0
  then show ?thesis using assms by (cases p) (simp_all add: np_unwrap_alt)
next
  case (Suc j)
  then obtain a as where p: "p = a # as" using assms by (cases p) auto
  have j: "j < length as" using Suc assms p by simp
  have "np_unwrap p ! k = (map2 (+) as (np_cumsum (map ph_correct_of (np_diff p)))) ! j"
    using Suc p by (simp add: np_unwrap_alt)
  also have "\<dots> = as ! j + np_cumsum (map ph_correct_of (np_diff p)) ! j"
    using j p by (simp add: np_cumsum_def length_cumsum_from length_np_diff)
  also have "\<dots> = as ! j + sum_list (take (Suc j) (map ph_correct_of (np_diff p)))"
    using j p by (simp add: np_cumsum_def cumsum_from_nth length_np_diff)
  finally show ?thesis using Suc p by simp
qed

lemma np_unwrap_step:
  assumes "Suc k < length p"
  shows "np_unwrap p ! Suc k - np_unwrap p ! k
       = (p ! Suc k - p ! k) + ph_correct_of (p ! Suc k - p ! k)"
proof -
  let ?c = "map ph_correct_of (np_diff p)"
  have k: "k < length ?c" using assms by (simp add: length_np_diff)
  have "take (Suc k) ?c = take k ?c @ [?c ! k]"
    using k by (rule take_Suc_conv_app_nth)
  moreover have "?c ! k = ph_correct_of (p ! Suc k - p ! k)"
    using k assms by (simp add: np_diff_nth length_np_diff)
  ultimately show ?thesis
    using assms by (simp add: np_unwrap_nth)
qed

lemma np_mod_bounds:
  assumes "0 < b"
  shows "0 \<le> np_mod a b \<and> np_mod a b < b"
proof -
  have "of_int \<lfloor>a / b\<rfloor> \<le> a / b" "a / b < of_int \<lfloor>a / b\<rfloor> + 1" by linarith+
  then have "of_int \<lfloor>a / b\<rfloor> * b \<le> a" "a < (of_int \<lfloor>a / b\<rfloor> + 1) * b"
    using assms by (simp_all only: pos_le_divide_eq pos_divide_less_eq)
  then show ?thesis by (simp add: np_mod_def algebra_simps)
qed

lemma ph_correct_multiple: "\<exists>n :: int. ph_correct_of d = 2 * pi * of_int n"
proof -
  let ?q = "\<lfloor>(d + pi) / (2 * pi)\<rfloor>"
  have m0: "np_mod (d + pi) (2 * pi) - pi - d = 2 * pi * of_int (- ?q)"
    by (simp add: np_mod_def)
  have m1: "pi - d = 2 * pi * of_int (1 - ?q)" if "np_mod (d + pi) (2 * pi) - pi = - pi"
    using that m0 by (simp add: algebra_simps)
  have z: "(0 :: real) = 2 * pi * of_int 0" by simp
  consider "\<bar>d\<bar> < pi" | "\<not> \<bar>d\<bar> < pi" "np_mod (d + pi) (2 * pi) - pi = - pi \<and> d > 0"
    | "\<not> \<bar>d\<bar> < pi" "\<not> (np_mod (d + pi) (2 * pi) - pi = - pi \<and> d > 0)" by blast
  then show ?thesis
  proof cases
    case 1
    then have "ph_correct_of d = 0" by (simp add: ph_correct_of_def Let_def)
    then show ?thesis using z by metis
  next
    case 2
    then have "ph_correct_of d = pi - d" by (simp add: ph_correct_of_def Let_def)
    then show ?thesis using m1 2 by metis
  next
    case 3
    then have "ph_correct_of d = np_mod (d + pi) (2 * pi) - pi - d"
      by (auto simp: ph_correct_of_def Let_def)
    then show ?thesis using m0 by metis
  qed
qed

lemma ph_correct_bound: "\<bar>d + ph_correct_of d\<bar> \<le> pi"
proof -
  have "0 \<le> np_mod (d + pi) (2 * pi) \<and> np_mod (d + pi) (2 * pi) < 2 * pi"
    by (rule np_mod_bounds) simp
  then show ?thesis by (auto simp: ph_correct_of_def Let_def)
qed

lemma sum_list_multiples:
  assumes "\<forall>c \<in> set cs. \<exists>n :: int. c = 2 * pi * of_int n"
  shows "\<exists>n :: int. sum_list cs = 2 * pi * of_int n"
  using assms
proof (induction cs)
  case Nil
  have "(0::real) = 2 * pi * of_int 0" by simp
  then show ?case by (metis sum_list.Nil)
next
  case (Cons c cs)
  then obtain n m :: int where "c = 2 * pi * of_int n" "sum_list cs = 2 * pi * of_int m"
    by auto
  then have "sum_list (c # cs) = 2 * pi * of_int (n + m)" by (simp add: algebra_simps)
  then show ?case by blast
qed

lemma np_unwrap_is_unwrapping: "is_unwrapping p (np_unwrap p)"
proof -
  have a: "take 1 (np_unwrap p) = take 1 p"
    by (cases p) (simp_all add: np_unwrap_alt)
  have b: "\<exists>n :: int. np_unwrap p ! k = p ! k + 2 * pi * of_int n" if "k < length p" for k
  proof -
    have "\<forall>c \<in> set (take k (map ph_correct_of (np_diff p))). \<exists>n :: int. c = 2 * pi * of_int n"
      using ph_correct_multiple by (auto dest!: in_set_takeD)
    then obtain n :: int where "sum_list (take k (map ph_correct_of (np_diff p))) = 2 * pi * of_int n"
      using sum_list_multiples by blast
    then show ?thesis using that by (simp add: np_unwrap_nth)
  qed
  have c: "\<bar>np_unwrap p ! (k + 1) - np_unwrap p ! k\<bar> \<le> pi" if "k + 1 < length p" for k
    using that np_unwrap_step [of k p] ph_correct_bound by simp
  show ?thesis
    unfolding is_unwrapping_def using a b c by (simp add: length_np_unwrap)
qed

subsection \<open>The sum of the eight unit vectors\<close>

lemma sum_list_filter_split:
  "sum_list (map f (filter P xs)) + sum_list (map f (filter (\<lambda>x. \<not> P x) xs))
     = (sum_list (map f xs) :: complex)"
  by (induction xs) auto

lemma sum_spec_order:
  "(\<Sum>r<R. f (spec_order R ! r)) = (\<Sum>k<R. f k :: complex)"
proof -
  have "(\<Sum>r<R. f (spec_order R ! r)) = sum_list (map f (spec_order R))"
    by (simp add: sum_list_sum_nth length_spec_order atLeast0LessThan)
  also have "\<dots> = sum_list (map f [0..<R])"
    using sum_list_filter_split [of f even "[0..<R]"] by (simp add: spec_order_def)
  also have "\<dots> = (\<Sum>k<R. f k)"
    by (simp add: interv_sum_list_conv_sum_set_nat atLeast0LessThan)
  finally show ?thesis .
qed

lemma cis_seventh_neq_one: "cis (2 * pi / 7) \<noteq> 1"
proof
  assume "cis (2 * pi / 7) = 1"
  then have "cos (2 * pi / 7) = 1" by (simp add: complex_eq_iff)
  then obtain n :: int where "2 * pi / 7 = of_int n * 2 * pi"
    using cos_one_2pi_int by blast
  then have "of_int n * 7 = (1 :: real)" by (simp add: field_simps)
  then have "n * 7 = 1" by (metis of_int_eq_1_iff of_int_mult of_int_numeral)
  then show False by presburger
qed

lemma sum_seventh_roots: "(\<Sum>k<7. cis (2 * pi / 7) ^ k) = 0"
proof -
  have "cis (2 * pi / 7) ^ 7 = 1" by (simp add: DeMoivre)
  then show ?thesis using cis_seventh_neq_one by (simp add: geometric_sum)
qed

lemma spec_unit_8: "cis (spec_angle 8 k) = - (cis (2 * pi / 7) ^ k)"
proof -
  have "spec_angle 8 k = pi + real k * (2 * pi / 7) - 2 * pi"
    by (simp add: spec_angle_def)
  then have "cis (spec_angle 8 k) = cis pi * cis (real k * (2 * pi / 7)) / cis (2 * pi)"
    by (simp only: cis_mult cis_divide)
  then show ?thesis by (simp add: DeMoivre)
qed

lemma sum_spec_units_8: "(\<Sum>r<8. cis (spec_angle 8 (spec_order 8 ! r))) = - 1"
proof -
  have "(\<Sum>r<8. cis (spec_angle 8 (spec_order 8 ! r))) = (\<Sum>k<8. cis (spec_angle 8 k))"
    by (rule sum_spec_order)
  also have "\<dots> = (\<Sum>k<8. - (cis (2 * pi / 7) ^ k))"
    by (simp only: spec_unit_8)
  also have "\<dots> = - (\<Sum>k<8. cis (2 * pi / 7) ^ k)"
    by (rule sum_negf)
  also have "(\<Sum>k<8. cis (2 * pi / 7) ^ k) = (\<Sum>k<Suc 7. cis (2 * pi / 7) ^ k)"
    by simp
  also have "\<dots> = 1"
    unfolding sum.lessThan_Suc sum_seventh_roots by (simp add: DeMoivre)
  finally show ?thesis .
qed


subsection \<open>Claims about \<open>to_phase\<close>\<close>

text \<open>
  Claim C1. For every fluorescence matrix of shape \<open>(R, T)\<close> with \<open>R \<ge> 2\<close>, \<open>to_phase\<close>
  equals the reference definition: \<open>R\<close> unit complex numbers at \<open>R\<close> equally spaced angles
  spanning the closed interval from \<open>- pi\<close> to \<open>pi\<close> (so that the first and the last
  coincide), reordered by taking every other element starting at index 0 followed by
  every other element starting at index 1, and summed against the fluorescence values of
  each time sample.
\<close>

theorem to_phase_refines_spec:
  assumes "has_shape F R T" "2 \<le> R"
  shows "to_phase F = spec_compute_phase F R T \<and> cis (spec_angle R 0) = cis (spec_angle R (R - 1))"
proof
  show "to_phase F = spec_compute_phase F R T"
  proof (rule nth_equalityI)
    show "length (to_phase F) = length (spec_compute_phase F R T)"
      using assms by (simp add: length_to_phase spec_compute_phase_def)
  next
    fix t assume "t < length (to_phase F)"
    then have t: "t < T" using assms by (simp add: length_to_phase)
    have "to_phase F ! t = (\<Sum>r<R. circ R ! r * complex_of_real (F ! r ! t))"
      using assms t by (simp add: to_phase_nth)
    also have "\<dots> = (\<Sum>r<R. cis (spec_angle R (spec_order R ! r)) * complex_of_real (F ! r ! t))"
      using assms by (intro sum.cong) (auto simp: circ_nth)
    finally show "to_phase F ! t = spec_compute_phase F R T ! t"
      using t by (simp add: spec_compute_phase_def)
  qed
next
  have "spec_angle R (R - 1) = pi" using assms by (simp add: spec_angle_def)
  moreover have "spec_angle R 0 = - pi" by (simp add: spec_angle_def)
  ultimately show "cis (spec_angle R 0) = cis (spec_angle R (R - 1))"
    by (simp add: complex_eq_iff)
qed

text \<open>An instance with two regions and one time sample.\<close>

theorem to_phase_refines_spec_witness:
  "has_shape [[1], [2 :: real]] 2 1 \<and> (2::nat) \<le> 2
   \<and> to_phase [[1], [2]] = spec_compute_phase [[1], [2]] 2 1"
  using to_phase_refines_spec [of "[[1], [2]]" 2 1] by (simp add: has_shape_def)

text \<open>
  Claim C7. \<open>to_phase\<close> is linear: for all scalars \<open>a\<close>, \<open>b\<close> and all matrices \<open>X\<close>, \<open>Y\<close>
  of the same shape, the phase of \<open>a * X + b * Y\<close> is \<open>a\<close> times the phase of \<open>X\<close> plus
  \<open>b\<close> times the phase of \<open>Y\<close>.
\<close>

theorem to_phase_linear:
  assumes "has_shape X R T" "has_shape Y R T"
  shows "to_phase (madd (mscale a X) (mscale b Y)) = vadd (vscale a (to_phase X)) (vscale b (to_phase Y))"
proof (cases "R = 0")
  case True
  then have "X = []" "Y = []" using assms by (simp_all add: has_shape_def)
  then show ?thesis by (simp add: madd_def mscale_def vadd_def vscale_def to_phase_empty)
next
  case False
  then have R: "0 < R" by simp
  let ?Z = "madd (mscale a X) (mscale b Y)"
  have shZ: "has_shape ?Z R T" using assms by (rule has_shape_lincomb)
  show ?thesis
  proof (rule nth_equalityI)
    show "length (to_phase ?Z) = length (vadd (vscale a (to_phase X)) (vscale b (to_phase Y)))"
      using assms shZ R by (simp add: length_to_phase vadd_def vscale_def)
  next
    fix t assume "t < length (to_phase ?Z)"
    then have t: "t < T" using shZ R by (simp add: length_to_phase)
    have "to_phase ?Z ! t = (\<Sum>r<R. circ R ! r * complex_of_real (?Z ! r ! t))"
      using shZ R t by (rule to_phase_nth)
    also have "\<dots> = (\<Sum>r<R. complex_of_real a * (circ R ! r * complex_of_real (X ! r ! t))
                          + complex_of_real b * (circ R ! r * complex_of_real (Y ! r ! t)))"
      using assms t by (intro sum.cong) (auto simp: lincomb_nth algebra_simps)
    also have "\<dots> = complex_of_real a * (\<Sum>r<R. circ R ! r * complex_of_real (X ! r ! t))
                   + complex_of_real b * (\<Sum>r<R. circ R ! r * complex_of_real (Y ! r ! t))"
      by (simp add: sum.distrib sum_distrib_left)
    also have "\<dots> = complex_of_real a * to_phase X ! t + complex_of_real b * to_phase Y ! t"
      using assms R t by (simp add: to_phase_nth)
    also have "\<dots> = vadd (vscale a (to_phase X)) (vscale b (to_phase Y)) ! t"
      using assms R t by (simp add: vadd_def vscale_def length_to_phase)
    finally show "to_phase ?Z ! t = vadd (vscale a (to_phase X)) (vscale b (to_phase Y)) ! t" .
  qed
qed

text \<open>An instance with two regions and one time sample.\<close>

theorem to_phase_linear_witness:
  "has_shape [[1], [2 :: real]] 2 1 \<and> has_shape [[3], [4 :: real]] 2 1
   \<and> to_phase (madd (mscale 2 [[1], [2]]) (mscale 3 [[3], [4]]))
       = vadd (vscale 2 (to_phase [[1], [2]])) (vscale 3 (to_phase [[3], [4]]))"
  using to_phase_linear [of "[[1], [2]]" 2 1 "[[3], [4]]" 2 3] by (simp add: has_shape_def)

text \<open>
  Claim C9. For \<open>R = 8\<close> regions and \<open>T = 100\<close> samples, \<open>to_phase\<close> of the all-ones matrix
  is constant over the 100 time samples, each entry being the sum of the eight unit
  vectors of the reference definition in their reordered sequence; that sum is \<open>- 1\<close>
  (the seven distinct directions cancel and the duplicated end point remains).
\<close>

theorem to_phase_all_ones:
  "to_phase (replicate 8 (replicate 100 1))
     = replicate 100 (\<Sum>r<8. cis (spec_angle 8 (spec_order 8 ! r)))
   \<and> (\<Sum>r<8. cis (spec_angle 8 (spec_order 8 ! r))) = - 1"
proof -
  have "sum_list (circ 8) = (\<Sum>r<8. circ 8 ! r)"
    by (simp add: sum_list_sum_nth length_circ atLeast0LessThan)
  also have "\<dots> = (\<Sum>r<8. cis (spec_angle 8 (spec_order 8 ! r)))"
    by (intro sum.cong) (auto simp: circ_nth)
  finally have "sum_list (circ 8) = (\<Sum>r<8. cis (spec_angle 8 (spec_order 8 ! r)))" .
  moreover have "to_phase (replicate 8 (replicate 100 1)) = replicate 100 (sum_list (circ 8))"
    by (rule to_phase_ones) simp
  ultimately show ?thesis using sum_spec_units_8 by simp
qed

subsection \<open>Evaluation on one-sample inputs\<close>

lemma np_angle_one: "np_angle 1 = 0" by (simp add: np_angle_def arctan2_def)
lemma np_angle_i: "np_angle \<i> = pi / 2" by (simp add: np_angle_def arctan2_def)
lemma np_angle_minus_i: "np_angle (- \<i>) = - (pi / 2)" by (simp add: np_angle_def arctan2_def)
lemma np_angle_minus_one: "np_angle (- 1) = pi" by (simp add: np_angle_def arctan2_def)
lemma np_unwrap_single: "np_unwrap [a] = [a]"
  by (simp add: np_unwrap_alt np_diff_def np_cumsum_def)
lemma interp_at_single: "interp_at [x0] [y0] x = y0"
  by (simp add: interp_at_def search_index_def)

lemma valid_single: "valid_input [t] [z] [] [] \<and> valid_input [t] [z] [v] [h]"
  by (simp add: valid_input_def)

lemma offset_single:
  "compute_offset [t] [z] [v] [h] = Inr (Fin (cis (np_angle z - h)))"
  using valid_single [of t z v h]
  by (simp add: compute_offset_valid offset_ratios_def np_unwrap_single interp_at_single np_mean_def)

subsection \<open>The offset in the specification's terms\<close>

lemma map2_map_left: "map2 f (map g xs) ys = map2 (\<lambda>x y. f (g x) y) xs ys"
  by (induction xs arbitrary: ys) (auto simp: zip_Cons1 split: list.splits)

lemma offset_ratios_spec:
  assumes "valid_input its ph vts vh"
  shows "offset_ratios its ph vts vh =
     map2 (\<lambda>w h. w / cis h)
       (map cis (map (spec_interp (zip its (np_unwrap (map np_angle ph)))) vts)) vh"
proof -
  have "interp_at its (np_unwrap (map np_angle ph)) x
      = spec_interp (zip its (np_unwrap (map np_angle ph))) x" for x
    using assms by (intro interp_at_eq_spec) (simp_all add: valid_input_def length_np_unwrap)
  then show ?thesis
    by (simp add: offset_ratios_def map2_map_left cis_divide)
qed

lemma np_mean_offset_spec:
  assumes "valid_input its ph vts vh" "vts \<noteq> []"
  shows "np_mean (offset_ratios its ph vts vh)
       = Fin (spec_offset its (np_unwrap (map np_angle ph)) vts vh)"
proof -
  have len: "length (offset_ratios its ph vts vh) = length vts"
    using assms by (simp add: offset_ratios_def valid_input_def)
  then have "offset_ratios its ph vts vh \<noteq> []" using assms(2) by auto
  then show ?thesis
    using len offset_ratios_spec [OF assms(1)]
    by (simp add: np_mean_def spec_offset_def Let_def)
qed

lemma ph_correct_small: "\<bar>d\<bar> < pi \<Longrightarrow> ph_correct_of d = 0"
  by (simp add: ph_correct_of_def Let_def)

lemma np_unwrap_pair: "\<bar>b - a\<bar> < pi \<Longrightarrow> np_unwrap [a, b] = [a, b]"
  by (simp add: np_unwrap_alt np_diff_def np_cumsum_def ph_correct_small)


subsection \<open>Rotating the phase by a constant angle\<close>

lemma fin_list_map_Fin: "fin_list (map (\<lambda>z. Fin (f z)) xs) = Some (map f xs)"
  by (induction xs) auto

lemma np_mod_periodic: "np_mod (a + 2 * pi * of_int m) (2 * pi) = np_mod a (2 * pi)"
proof -
  have "(a + 2 * pi * of_int m) / (2 * pi) = a / (2 * pi) + of_int m"
    by (simp add: field_simps)
  then have "\<lfloor>(a + 2 * pi * of_int m) / (2 * pi)\<rfloor> = \<lfloor>a / (2 * pi)\<rfloor> + m"
    by simp
  then show ?thesis by (simp add: np_mod_def algebra_simps)
qed

lemma np_mod_small:
  assumes "0 \<le> a" "a < b"
  shows "np_mod a b = a"
proof -
  have "\<lfloor>a / b\<rfloor> = 0" using assms by (simp add: floor_eq_iff)
  then show ?thesis by (simp add: np_mod_def)
qed

lemma unwrap_step_value:
  assumes "np_mod (d + pi) (2 * pi) \<noteq> 0"
  shows "d + ph_correct_of d = np_mod (d + pi) (2 * pi) - pi"
proof (cases "\<bar>d\<bar> < pi")
  case True
  then have "np_mod (d + pi) (2 * pi) = d + pi" by (intro np_mod_small) auto
  then show ?thesis using True by (simp add: ph_correct_of_def Let_def)
next
  case False
  then show ?thesis using assms by (simp add: ph_correct_of_def Let_def)
qed

lemma unwrap_step_periodic:
  assumes "np_mod (d + pi) (2 * pi) \<noteq> 0"
  shows "(d + 2 * pi * of_int m) + ph_correct_of (d + 2 * pi * of_int m) = d + ph_correct_of d"
proof -
  have eq: "np_mod (d + 2 * pi * of_int m + pi) (2 * pi) = np_mod (d + pi) (2 * pi)"
    using np_mod_periodic [of "d + pi" m] by (simp add: algebra_simps)
  then have "np_mod (d + 2 * pi * of_int m + pi) (2 * pi) \<noteq> 0" using assms by simp
  then show ?thesis using assms eq by (simp add: unwrap_step_value)
qed

lemma np_unwrap_shift:
  assumes len: "length p' = length p"
    and sh: "\<forall>k < length p. \<exists>n :: int. p' ! k = p ! k + s + 2 * pi * of_int n"
    and na: "\<forall>k. Suc k < length p \<longrightarrow> np_mod (p ! Suc k - p ! k + pi) (2 * pi) \<noteq> 0"
    and k: "k < length p"
  shows "np_unwrap p' ! k = np_unwrap p ! k + (p' ! 0 - p ! 0)"
  using k
proof (induction k)
  case 0
  then show ?case using len by (simp add: np_unwrap_nth)
next
  case (Suc k)
  then have IH: "np_unwrap p' ! k = np_unwrap p ! k + (p' ! 0 - p ! 0)" by simp
  obtain n1 n0 :: int where n: "p' ! Suc k = p ! Suc k + s + 2 * pi * of_int n1"
      "p' ! k = p ! k + s + 2 * pi * of_int n0"
    using sh Suc.prems by (meson Suc_lessD)
  let ?d = "p ! Suc k - p ! k"
  have d': "p' ! Suc k - p' ! k = ?d + 2 * pi * of_int (n1 - n0)"
    using n by (simp add: algebra_simps)
  have nz: "np_mod (?d + pi) (2 * pi) \<noteq> 0" using na Suc.prems by simp
  have "np_unwrap p' ! Suc k - np_unwrap p' ! k
      = (p' ! Suc k - p' ! k) + ph_correct_of (p' ! Suc k - p' ! k)"
    using Suc.prems len by (simp add: np_unwrap_step)
  also have "\<dots> = ?d + ph_correct_of ?d"
    unfolding d' using nz by (rule unwrap_step_periodic)
  also have "\<dots> = np_unwrap p ! Suc k - np_unwrap p ! k"
    using Suc.prems by (simp add: np_unwrap_step)
  finally show ?case using IH by simp
qed

lemma interp_at_shift:
  assumes "xp \<noteq> []" "length fp = length xp"
  shows "interp_at xp (map (\<lambda>y. y + s) fp) x = interp_at xp fp x + s"
proof -
  have fp: "fp \<noteq> []" using assms by auto
  let ?j = "search_index x xp"
  have j: "?j < length fp" using assms by (simp add: search_index_less)
  have j1: "?j \<noteq> length xp - 1 \<Longrightarrow> ?j + 1 < length fp" using j assms by simp
  show ?thesis
    using fp j j1 by (simp add: interp_at_def Let_def hd_map last_map diff_divide_distrib algebra_simps)
qed

lemma np_angle_rotate:
  assumes "z \<noteq> 0"
  shows "\<exists>n :: int. np_angle (z * cis c) = np_angle z + c + 2 * pi * of_int n"
proof -
  have "cis (np_angle (z * cis c)) = sgn (z * cis c)"
    using assms by (simp add: cis_np_angle)
  also have "\<dots> = sgn z * cis c" by (simp add: sgn_eq norm_mult)
  also have "\<dots> = cis (np_angle z + c)" using assms by (simp add: cis_np_angle flip: cis_mult)
  finally show ?thesis by (simp add: cis_eq_iff)
qed

lemma not_opposite_np_mod:
  assumes "z \<noteq> 0" "z' \<noteq> 0" "sgn z' \<noteq> - sgn z"
  shows "np_mod (np_angle z' - np_angle z + pi) (2 * pi) \<noteq> 0"
proof
  let ?d = "np_angle z' - np_angle z"
  assume "np_mod (?d + pi) (2 * pi) = 0"
  then have "?d = - pi + 2 * pi * of_int \<lfloor>(?d + pi) / (2 * pi)\<rfloor>"
    by (simp add: np_mod_def algebra_simps)
  then have "cis ?d = cis (- pi)" using cis_eq_iff by blast
  then have "cis (np_angle z') / cis (np_angle z) = - 1"
    by (simp add: cis_divide complex_eq_iff)
  then have "sgn z' / sgn z = - 1" using assms by (simp add: cis_np_angle)
  then have "sgn z' = - sgn z" using assms by (simp add: field_simps sgn_zero_iff)
  then show False using assms by simp
qed

lemma unwrap_rotated:
  assumes nz: "\<forall>z \<in> set ph. z \<noteq> 0" and no: "no_opposite_neighbours ph" and ne: "ph \<noteq> []"
  shows "\<exists>n :: int. np_unwrap (map np_angle (map (\<lambda>z. z * cis c) ph))
        = map (\<lambda>y. y + (c + 2 * pi * of_int n)) (np_unwrap (map np_angle ph))"
proof -
  let ?p = "map np_angle ph" and ?p' = "map np_angle (map (\<lambda>z. z * cis c) ph)"
  have nzk: "ph ! k \<noteq> 0" if "k < length ph" for k using nz that by simp
  obtain n :: int where n: "np_angle (ph ! 0 * cis c) = np_angle (ph ! 0) + c + 2 * pi * of_int n"
    using np_angle_rotate [of "ph ! 0" c] nzk [of 0] ne by auto
  have d0: "?p' ! 0 - ?p ! 0 = c + 2 * pi * of_int n" using n ne by simp
  have sh: "\<forall>k < length ?p. \<exists>m :: int. ?p' ! k = ?p ! k + c + 2 * pi * of_int m"
    using np_angle_rotate nzk by simp
  have na: "\<forall>k. Suc k < length ?p \<longrightarrow> np_mod (?p ! Suc k - ?p ! k + pi) (2 * pi) \<noteq> 0"
  proof (intro allI impI)
    fix k assume "Suc k < length ?p"
    then have k: "Suc k < length ph" by simp
    then have "sgn (ph ! Suc k) \<noteq> - sgn (ph ! k)"
      using no by (simp add: no_opposite_neighbours_def)
    then have "np_mod (np_angle (ph ! Suc k) - np_angle (ph ! k) + pi) (2 * pi) \<noteq> 0"
      using nzk [of k] nzk [of "Suc k"] k by (intro not_opposite_np_mod) auto
    then show "np_mod (?p ! Suc k - ?p ! k + pi) (2 * pi) \<noteq> 0" using k by simp
  qed
  have "np_unwrap ?p' = map (\<lambda>y. y + (c + 2 * pi * of_int n)) (np_unwrap ?p)"
  proof (rule nth_equalityI)
    show "length (np_unwrap ?p') = length (map (\<lambda>y. y + (c + 2 * pi * of_int n)) (np_unwrap ?p))"
      by (simp add: length_np_unwrap)
  next
    fix k assume "k < length (np_unwrap ?p')"
    then have k: "k < length ?p" by (simp add: length_np_unwrap)
    have "np_unwrap ?p' ! k = np_unwrap ?p ! k + (?p' ! 0 - ?p ! 0)"
      using _ sh na k by (rule np_unwrap_shift) simp
    then show "np_unwrap ?p' ! k = map (\<lambda>y. y + (c + 2 * pi * of_int n)) (np_unwrap ?p) ! k"
      using k d0 by (simp add: length_np_unwrap)
  qed
  then show ?thesis by blast
qed

lemma interp_angle_valid:
  assumes "its \<noteq> []" "length ph = length its"
  shows "interp_angle its ph vts = Inr (map (interp_at its (np_unwrap (map np_angle ph))) vts)"
  using assms by (simp add: interp_angle_def np_interp_def length_np_unwrap)

lemma offset_ratios_constant:
  assumes "length vh = length vts"
    and "list_all2 (\<lambda>x h. cis h = cis (x + c))
           (map (interp_at its (np_unwrap (map np_angle ph))) vts) vh"
  shows "offset_ratios its ph vts vh = replicate (length vts) (cis (- c))"
proof (rule nth_equalityI)
  show "length (offset_ratios its ph vts vh) = length (replicate (length vts) (cis (- c)))"
    using assms by (simp add: offset_ratios_def)
next
  fix v assume "v < length (offset_ratios its ph vts vh)"
  then have v: "v < length vts" "v < length vh" using assms by (simp_all add: offset_ratios_def)
  let ?a = "interp_at its (np_unwrap (map np_angle ph)) (vts ! v)"
  have eq: "cis (vh ! v) = cis (?a + c)"
    using assms(2) v by (simp add: list_all2_conv_all_nth)
  have "cis (?a - vh ! v) = cis ?a / cis (vh ! v)" by (simp add: cis_divide)
  also have "\<dots> = cis ?a / cis (?a + c)" by (simp only: eq)
  also have "\<dots> = cis (- c)" by (simp add: cis_divide)
  finally show "offset_ratios its ph vts vh ! v = replicate (length vts) (cis (- c)) ! v"
    using v by (simp add: offset_ratios_def)
qed

lemma np_mean_replicate: "0 < n \<Longrightarrow> np_mean (replicate n x) = Fin x"
  by (simp add: np_mean_def sum_list_replicate)

subsection \<open>Claims about \<open>plot_phase_and_heading\<close>\<close>

text \<open>
  Claim C2. With \<open>subtract_offset = True\<close> the correction is computed by the steps of the
  specification: the angle of the phase is unwrapped on the imaging grid, interpolated
  linearly onto the behavioural timestamps with the end values outside the imaging range,
  re-wrapped, divided elementwise by the unit complex form of the heading, and averaged
  over the \<open>V\<close> behavioural samples; the phase array then holds the original phase divided
  by that offset. The inputs are valid, with at least one behavioural sample and an
  offset that is not zero.
\<close>

theorem offset_steps_refine_spec:
  assumes "valid_input its ph vts vh" "vts \<noteq> []"
    and "spec_offset its (np_unwrap (map np_angle ph)) vts vh \<noteq> 0"
  shows "is_unwrapping (map np_angle ph) (np_unwrap (map np_angle ph))
   \<and> compute_offset its ph vts vh
       = Inr (Fin (spec_offset its (np_unwrap (map np_angle ph)) vts vh))
   \<and> phase_arr (plot_phase_and_heading its ph vts vh ax True)
       = map Fin (spec_corrected ph (spec_offset its (np_unwrap (map np_angle ph)) vts vh))"
  using assms
  by (simp add: np_unwrap_is_unwrapping compute_offset_valid np_mean_offset_spec phase_arr_True
      idiv_def spec_corrected_def)

text \<open>
  Two imaging samples \<open>1\<close> and \<open>\<i>\<close> at times 0 and 1, behavioural samples at times
  \<open>1 / 2\<close> (interpolated angle \<open>pi / 4\<close>) and 2 (beyond the imaging range, end value
  \<open>pi / 2\<close>), heading 0.
\<close>

theorem offset_steps_refine_spec_witness:
  "valid_input [0, 1] [1, \<i>] [1 / 2, 2] [0, 0] \<and> [1 / 2, 2 :: real] \<noteq> []
   \<and> spec_offset [0, 1] (np_unwrap (map np_angle [1, \<i>])) [1 / 2, 2] [0, 0]
       = (cis (pi / 4) + \<i>) / 2
   \<and> (cis (pi / 4) + \<i>) / 2 \<noteq> 0
   \<and> phase_arr (plot_phase_and_heading [0, 1] [1, \<i>] [1 / 2, 2] [0, 0] [] True)
       = [Fin (1 / ((cis (pi / 4) + \<i>) / 2)), Fin (\<i> / ((cis (pi / 4) + \<i>) / 2))]"
proof -
  have v: "valid_input [0, 1] [1, \<i>] [1 / 2, 2] [0, 0]" by (simp add: valid_input_def)
  have ne: "[1 / 2, 2 :: real] \<noteq> []" by simp
  have u: "np_unwrap [np_angle 1, np_angle \<i>] = [0, pi / 2]"
    by (simp add: np_angle_one np_angle_i np_unwrap_pair)
  have off: "spec_offset [0, 1] (np_unwrap (map np_angle [1, \<i>])) [1 / 2, 2] [0, 0]
      = (cis (pi / 4) + \<i>) / 2"
    by (simp add: u spec_offset_def)
  have nz: "(cis (pi / 4) + \<i>) / 2 \<noteq> 0"
    by (simp add: complex_eq_iff cos_45 sin_45)
  have nz': "spec_offset [0, 1] (np_unwrap (map np_angle [1, \<i>])) [1 / 2, 2] [0, 0] \<noteq> 0"
    unfolding off by (rule nz)
  note r = offset_steps_refine_spec [OF v ne nz', of "[]", unfolded off]
  have "map Fin (spec_corrected [1, \<i>] ((cis (pi / 4) + \<i>) / 2))
      = [Fin (1 / ((cis (pi / 4) + \<i>) / 2)), Fin (\<i> / ((cis (pi / 4) + \<i>) / 2))]"
    by (simp add: spec_corrected_def)
  then show ?thesis
    using v ne off nz r by metis
qed

text \<open>
  Claim C5. With \<open>subtract_offset = False\<close> the call is a no-op on the data, for every
  input: the phase array holds the values it held before, and no other input array is
  modified.
\<close>

theorem no_offset_is_identity:
  "phase_arr (plot_phase_and_heading its ph vts vh ax False) = map Fin ph
   \<and> image_timestamps_arr (plot_phase_and_heading its ph vts vh ax False) = its
   \<and> vr_timestamps_arr (plot_phase_and_heading its ph vts vh ax False) = vts
   \<and> vr_heading_arr (plot_phase_and_heading its ph vts vh ax False) = vh"
  by (simp add: plot_False Let_def)

text \<open>
  Claim C4. With \<open>subtract_offset = True\<close> the caller's phase array is overwritten in
  place: once the offset is computed, the array holds the phase divided by the offset,
  which differs from the original values whenever the offset is a finite value other
  than 0 and 1 and some sample is not zero; no other input array is modified.
\<close>

theorem offset_division_in_place:
  assumes "compute_offset its ph vts vh = Inr off"
  shows "phase_arr (plot_phase_and_heading its ph vts vh ax True) = idiv ph off
   \<and> (\<forall>w. off = Fin w \<and> w \<noteq> 0 \<and> w \<noteq> 1 \<and> (\<exists>z \<in> set ph. z \<noteq> 0)
          \<longrightarrow> phase_arr (plot_phase_and_heading its ph vts vh ax True) \<noteq> map Fin ph)
   \<and> image_timestamps_arr (plot_phase_and_heading its ph vts vh ax True) = its
   \<and> vr_timestamps_arr (plot_phase_and_heading its ph vts vh ax True) = vts
   \<and> vr_heading_arr (plot_phase_and_heading its ph vts vh ax True) = vh"
proof -
  have a: "phase_arr (plot_phase_and_heading its ph vts vh ax True) = idiv ph off"
    using assms by (simp add: phase_arr_True)
  have b: "idiv ph (Fin w) \<noteq> map Fin ph" if "w \<noteq> 0" "w \<noteq> 1" "z \<in> set ph" "z \<noteq> 0" for w z
  proof
    assume "idiv ph (Fin w) = map Fin ph"
    then have "map (\<lambda>z. z / w) ph = ph"
      using that(1) by (simp add: idiv_def list_eq_iff_nth_eq)
    then have "z / w = z" using that(3) by (metis map_eq_conv map_ident id_apply list.map_id)
    then show False using that by (simp add: field_simps)
  qed
  show ?thesis using a b frame_arrays [of its ph vts vh ax True] by auto
qed

text \<open>One sample, heading \<open>pi / 2\<close>: the offset is \<open>- \<i>\<close> and the array \<open>[1]\<close> becomes \<open>[\<i>]\<close>.\<close>

theorem offset_division_in_place_witness:
  "compute_offset [0] [1] [0] [pi / 2] = Inr (Fin (- \<i>))
   \<and> phase_arr (plot_phase_and_heading [0] [1] [0] [pi / 2] [] True) = [Fin \<i>]
   \<and> phase_arr (plot_phase_and_heading [0] [1] [0] [pi / 2] [] True) \<noteq> map Fin [1]
   \<and> vr_heading_arr (plot_phase_and_heading [0] [1] [0] [pi / 2] [] True) = [pi / 2]"
proof -
  have off: "compute_offset [0] [1] [0] [pi / 2] = Inr (Fin (- \<i>))"
    by (simp add: offset_single np_angle_one)
  show ?thesis
    using off offset_division_in_place [OF off, of "[]"] by (simp add: idiv_def)
qed

text \<open>
  Claim C3, as stated: for every valid input the function returns the corrected phase
  signal. The function returns \<^verbatim>\<open>None\<close>: on one sample with heading \<open>pi / 2\<close> the
  outcome is \<open>PyNone\<close>, not the array \<open>[\<i>]\<close> that the phase array holds after the call.
\<close>

theorem returns_none_counterexample:
  "outcome (plot_phase_and_heading [0] [1] [0] [pi / 2] [] True) = Inr PyNone
   \<and> outcome (plot_phase_and_heading [0] [1] [0] [pi / 2] [] True) \<noteq> Inr (PyArray [Fin \<i>])
   \<and> phase_arr (plot_phase_and_heading [0] [1] [0] [pi / 2] [] True) = [Fin \<i>]"
  using valid_single [of 0 1 0 "pi / 2"]
  by (simp add: plot_valid offset_ratios_def np_unwrap_single interp_at_single np_mean_def
      np_angle_one idiv_def)

text \<open>
  Claim C3, amended. For every valid input and \<open>subtract_offset = True\<close> the call raises
  nothing and returns \<^verbatim>\<open>None\<close>; the corrected signal is left in the caller's phase array,
  which keeps its length \<open>T\<close> and holds the original imaging-grid samples divided by the
  offset; its angle is drawn against the imaging timestamps.
\<close>

theorem corrected_phase_left_in_array:
  assumes "valid_input its ph vts vh"
  shows "outcome (plot_phase_and_heading its ph vts vh ax True) = Inr PyNone
   \<and> length (phase_arr (plot_phase_and_heading its ph vts vh ax True)) = length its
   \<and> (\<exists>off. compute_offset its ph vts vh = Inr off
         \<and> phase_arr (plot_phase_and_heading its ph vts vh ax True) = idiv ph off)
   \<and> ax_lines (plot_phase_and_heading its ph vts vh ax True)
       = ax @ [(vts, map Fin vh),
               (its, map angle_val (phase_arr (plot_phase_and_heading its ph vts vh ax True)))]"
  using assms
  by (simp add: plot_valid compute_offset_valid length_idiv valid_input_def)

text \<open>
  One sample, heading \<open>pi / 2\<close>.
\<close>

theorem corrected_phase_left_in_array_witness:
  "valid_input [0] [1] [0] [pi / 2]
   \<and> outcome (plot_phase_and_heading [0] [1] [0] [pi / 2] [] True) = Inr PyNone
   \<and> length (phase_arr (plot_phase_and_heading [0] [1] [0] [pi / 2] [] True)) = 1"
  using corrected_phase_left_in_array [of "[0]" "[1]" "[0]" "[pi / 2]" "[]"]
  by (simp add: valid_input_def)

text \<open>
  Claim C8, as stated: an empty behavioural timestamp array raises an
  \<^verbatim>\<open>EmptyTimeSeries\<close> error. The code raises nothing: with one imaging sample and no
  behavioural sample the call returns \<^verbatim>\<open>None\<close> and the phase array holds a non-finite
  value.
\<close>

theorem empty_heading_counterexample:
  "outcome (plot_phase_and_heading [0] [1] [] [] [] True) = Inr PyNone
   \<and> phase_arr (plot_phase_and_heading [0] [1] [] [] [] True) = [NonFin]"
  using valid_single [of 0 1]
  by (simp add: plot_valid offset_ratios_def np_mean_def idiv_def)

text \<open>
  Claim C8, amended. When the behavioural arrays are empty and the imaging arrays are
  valid, the call with \<open>subtract_offset = True\<close> raises no error: the mean of the empty
  array of ratios is not finite, and every entry of the phase array becomes non-finite,
  the length staying \<open>T\<close>.
\<close>

theorem empty_heading_gives_nonfinite:
  assumes "valid_input its ph [] []"
  shows "outcome (plot_phase_and_heading its ph [] [] ax True) = Inr PyNone
   \<and> phase_arr (plot_phase_and_heading its ph [] [] ax True) = replicate (length its) NonFin"
  using assms
  by (simp add: plot_valid offset_ratios_def np_mean_def idiv_def valid_input_def map_replicate_const)

text \<open>
  Two imaging samples, no behavioural sample.
\<close>

theorem empty_heading_gives_nonfinite_witness:
  "valid_input [0, 1] [1, \<i>] [] []
   \<and> outcome (plot_phase_and_heading [0, 1] [1, \<i>] [] [] [] True) = Inr PyNone
   \<and> phase_arr (plot_phase_and_heading [0, 1] [1, \<i>] [] [] [] True) = [NonFin, NonFin]"
proof -
  have v: "valid_input [0, 1] [1, \<i>] [] []" by (simp add: valid_input_def)
  show ?thesis using v empty_heading_gives_nonfinite [OF v, of "[]"] by (simp add: numeral_2_eq_2)
qed

text \<open>
  Claim C10, as stated: dividing by a nonzero offset changes every sample's angle by
  minus the angle of the offset, modulo \<open>2 * pi\<close>. It fails at a zero sample. With the
  phase array \<open>[0]\<close> and heading \<open>pi / 2\<close> the offset is \<open>- \<i>\<close>, of angle \<open>- pi / 2\<close>, and
  the corrected sample is again a zero. The angle of a zero is one of \<open>zero_angles\<close>,
  before and after the division, and none of these values differs from another of them
  by a quarter turn modulo \<open>2 * pi\<close>.
\<close>

theorem zero_sample_counterexample:
  "compute_offset [0] [0] [0] [pi / 2] = Inr (Fin (- \<i>))
   \<and> phase_arr (plot_phase_and_heading [0] [0] [0] [pi / 2] [] True) = [Fin 0]
   \<and> list_all (\<lambda>before. list_all (\<lambda>after. cis after \<noteq> cis (before - np_angle (- \<i>)))
                 zero_angles) zero_angles"
proof -
  have off: "compute_offset [0] [0] [0] [pi / 2] = Inr (Fin (- \<i>))"
    by (simp add: offset_single np_angle_zero)
  have "phase_arr (plot_phase_and_heading [0] [0] [0] [pi / 2] [] True) = [Fin 0]"
    by (simp add: phase_arr_True off idiv_def)
  moreover have "list_all (\<lambda>before. list_all (\<lambda>after. cis after \<noteq> cis (before - np_angle (- \<i>)))
                 zero_angles) zero_angles"
  proof -
    have s: "sin (3 * pi / 2) = - 1"
      using sin_3over2_pi by (simp only: times_divide_eq_left)
    show ?thesis
      by (simp add: zero_angles_def np_angle_minus_i complex_eq_iff s)
  qed
  ultimately show ?thesis using off by simp
qed

text \<open>
  Claim C10, amended. When the offset is a finite nonzero value \<open>w\<close>, every sample of the
  phase array is divided by \<open>w\<close>, so that its magnitude is divided by the magnitude of
  \<open>w\<close>; and for every nonzero sample the angle changes by minus the angle of \<open>w\<close> modulo
  \<open>2 * pi\<close> and is the angle that division by the unit vector \<open>sgn w\<close> gives, so that the
  magnitude of \<open>w\<close> does not affect it. Nothing is stated about the angle of a zero
  sample.
\<close>

theorem offset_division_rotates:
  assumes "compute_offset its ph vts vh = Inr (Fin w)" "w \<noteq> 0" "t < length ph"
  shows "phase_arr (plot_phase_and_heading its ph vts vh ax True) ! t = Fin (ph ! t / w)
   \<and> cmod (ph ! t / w) = cmod (ph ! t) / cmod w
   \<and> (ph ! t \<noteq> 0 \<longrightarrow>
        (\<exists>n :: int. np_angle (ph ! t / w) = np_angle (ph ! t) - np_angle w + 2 * pi * of_int n)
        \<and> np_angle (ph ! t / w) = np_angle (ph ! t / sgn w))"
proof -
  have "phase_arr (plot_phase_and_heading its ph vts vh ax True) ! t = Fin (ph ! t / w)"
    using assms by (simp add: phase_arr_True idiv_def)
  moreover have "ph ! t \<noteq> 0 \<longrightarrow>
        (\<exists>n :: int. np_angle (ph ! t / w) = np_angle (ph ! t) - np_angle w + 2 * pi * of_int n)"
    using assms(2) by (simp add: np_angle_divide)
  moreover have "cmod (ph ! t / w) = cmod (ph ! t) / cmod w"
    by (rule norm_divide)
  moreover have "np_angle (ph ! t / w) = np_angle (ph ! t / sgn w)"
    using assms(2) by (rule np_angle_div_sgn)
  ultimately show ?thesis by blast
qed

text \<open>One sample \<open>1\<close>, heading \<open>pi / 2\<close>, offset \<open>- \<i>\<close>.\<close>

theorem offset_division_rotates_witness:
  "compute_offset [0] [1] [0] [pi / 2] = Inr (Fin (- \<i>)) \<and> - \<i> \<noteq> (0 :: complex)
   \<and> (0 :: nat) < length [1 :: complex] \<and> (1 :: complex) \<noteq> 0
   \<and> phase_arr (plot_phase_and_heading [0] [1] [0] [pi / 2] [] True) ! 0 = Fin (1 / (- \<i>))
   \<and> cmod (1 / (- \<i>)) = cmod 1 / cmod (- \<i>)
   \<and> (\<exists>n :: int. np_angle (1 / (- \<i>)) = np_angle 1 - np_angle (- \<i>) + 2 * pi * of_int n)
   \<and> np_angle (1 / (- \<i>)) = np_angle (1 / sgn (- \<i>))"
proof -
  have off: "compute_offset [0] [1] [0] [pi / 2] = Inr (Fin (- \<i>))"
    by (simp add: offset_single np_angle_one)
  have nz: "- \<i> \<noteq> (0 :: complex)" by simp
  have t: "(0 :: nat) < length [1 :: complex]" by simp
  have one: "[1 :: complex] ! 0 = 1" "(1 :: complex) \<noteq> 0" by simp_all
  note r = offset_division_rotates [OF off nz t, of "[]", unfolded one]
  show ?thesis using off nz t r one(2) by blast
qed

text \<open>
  Claim C6, as stated: if the heading is the angle of the phase interpolated onto the
  behavioural grid plus a constant \<open>c\<close>, then after the alignment the angle of the
  corrected phase, interpolated onto the behavioural grid, equals the heading to within
  \<open>10\<^sup>-\<^sup>6\<close>. With the single sample \<open>- 1\<close>, of angle \<open>pi\<close>, and \<open>c = pi / 2\<close> the heading is
  \<open>pi + pi / 2\<close>, the corrected sample is \<open>- \<i>\<close> and its angle \<open>- pi / 2\<close>: the difference
  is a full turn.
\<close>

theorem round_trip_counterexample:
  "interp_angle [0] [- 1] [0] = Inr [pi]
   \<and> roundtrip_error [0] [- 1] [0] [pi + pi / 2] = Some [- (2 * pi)]
   \<and> \<not> \<bar>- (2 * pi)\<bar> \<le> 1 / 10 ^ 6"
proof -
  have a: "interp_angle [0] [- 1] [0] = Inr [pi]"
    by (simp add: interp_angle_def np_interp_def np_unwrap_single interp_at_single np_angle_minus_one)
  have "cis (np_angle (- 1) - (pi + pi / 2)) = - \<i>"
    by (simp add: np_angle_minus_one)
  then have off: "compute_offset [0] [- 1] [0] [pi + pi / 2] = Inr (Fin (- \<i>))"
    by (simp only: offset_single)
  have ph: "phase_arr (plot_phase_and_heading [0] [- 1] [0] [pi + pi / 2] [] True) = [Fin (- \<i>)]"
    unfolding phase_arr_True off by (simp add: idiv_def)
  have b: "roundtrip_error [0] [- 1] [0] [pi + pi / 2] = Some [- (2 * pi)]"
    unfolding roundtrip_error_def ph
    by (simp add: interp_angle_def np_interp_def np_unwrap_single interp_at_single np_angle_minus_i)
  have c: "\<not> \<bar>- (2 * pi)\<bar> \<le> 1 / 10 ^ 6"
    using pi_ge_two by simp
  show ?thesis using a b c by blast
qed

text \<open>
  Claim C6, amended. For a valid input with at least one behavioural sample, if the
  heading equals the interpolated angle of the phase plus \<open>c\<close> modulo \<open>2 * pi\<close>, then the
  offset is the unit vector of angle \<open>- c\<close> and the phase array holds the original phase
  rotated by \<open>c\<close>; and if moreover no sample is zero and no two consecutive samples are
  exactly opposite, the interpolated angle of the corrected phase equals the heading up
  to a whole multiple of \<open>2 * pi\<close> at every behavioural sample.
\<close>

theorem heading_offset_round_trip:
  assumes v: "valid_input its ph vts vh" and ne: "vts \<noteq> []"
    and a: "interp_angle its ph vts = Inr a"
    and h: "list_all2 (\<lambda>x h. cis h = cis (x + c)) a vh"
  shows "compute_offset its ph vts vh = Inr (Fin (cis (- c)))
   \<and> phase_arr (plot_phase_and_heading its ph vts vh ax True) = map (\<lambda>z. Fin (z * cis c)) ph
   \<and> ((\<forall>z \<in> set ph. z \<noteq> 0) \<and> no_opposite_neighbours ph \<longrightarrow>
        (\<exists>errs. roundtrip_error its ph vts vh = Some errs \<and> length errs = length vts
           \<and> (\<forall>e \<in> set errs. \<exists>n :: int. e = 2 * pi * of_int n)))"
proof -
  let ?u = "np_unwrap (map np_angle ph)"
  have its: "its \<noteq> []" and lp: "length ph = length its" and lv: "length vh = length vts"
    using v by (simp_all add: valid_input_def)
  have a_eq: "a = map (interp_at its ?u) vts"
    using a its lp by (simp add: interp_angle_valid)
  have "offset_ratios its ph vts vh = replicate (length vts) (cis (- c))"
    using lv h unfolding a_eq by (rule offset_ratios_constant)
  then have off: "compute_offset its ph vts vh = Inr (Fin (cis (- c)))"
    using v ne by (simp add: compute_offset_valid np_mean_replicate)
  have div: "idiv ph (Fin (cis (- c))) = map (\<lambda>z. Fin (z * cis c)) ph"
    by (simp add: idiv_def divide_inverse)
  have arr: "phase_arr (plot_phase_and_heading its ph vts vh ax' True) = map (\<lambda>z. Fin (z * cis c)) ph"
    for ax'
    by (simp add: phase_arr_True off div)
  have rt: "\<exists>errs. roundtrip_error its ph vts vh = Some errs \<and> length errs = length vts
           \<and> (\<forall>e \<in> set errs. \<exists>n :: int. e = 2 * pi * of_int n)"
    if nz: "\<forall>z \<in> set ph. z \<noteq> 0" and no: "no_opposite_neighbours ph"
  proof -
    let ?ph' = "map (\<lambda>z. z * cis c) ph"
    have phne: "ph \<noteq> []" using its lp by auto
    obtain n :: int where n:
      "np_unwrap (map np_angle ?ph') = map (\<lambda>y. y + (c + 2 * pi * of_int n)) ?u"
      using unwrap_rotated [OF nz no phne, of c] by blast
    have "interp_angle its ?ph' vts
        = Inr (map (interp_at its (np_unwrap (map np_angle ?ph'))) vts)"
      using its lp by (intro interp_angle_valid) simp_all
    also have "\<dots> = Inr (map (interp_at its (map (\<lambda>y. y + (c + 2 * pi * of_int n)) ?u)) vts)"
      by (simp only: n)
    also have "\<dots> = Inr (map (\<lambda>x. interp_at its ?u x + (c + 2 * pi * of_int n)) vts)"
      using its lp by (simp add: interp_at_shift length_np_unwrap)
    finally have ia: "interp_angle its ?ph' vts
        = Inr (map (\<lambda>x. interp_at its ?u x + (c + 2 * pi * of_int n)) vts)" .
    let ?errs = "map2 (-) (map (\<lambda>x. interp_at its ?u x + (c + 2 * pi * of_int n)) vts) vh"
    have r: "roundtrip_error its ph vts vh = Some ?errs"
      unfolding roundtrip_error_def arr fin_list_map_Fin by (simp add: ia)
    have len: "length ?errs = length vts" using lv by simp
    have mult: "\<exists>m :: int. e = 2 * pi * of_int m" if "e \<in> set ?errs" for e
    proof -
      from that len obtain k where k: "k < length vts" "e = ?errs ! k"
        by (metis in_set_conv_nth)
      then have e: "e = interp_at its ?u (vts ! k) + (c + 2 * pi * of_int n) - vh ! k"
        using lv by simp
      have "cis (vh ! k) = cis (interp_at its ?u (vts ! k) + c)"
        using h k lv unfolding a_eq by (simp add: list_all2_conv_all_nth)
      then obtain m :: int where "vh ! k = interp_at its ?u (vts ! k) + c + 2 * pi * of_int m"
        using cis_eq_iff by blast
      then have "e = 2 * pi * of_int (n - m)" using e by (simp add: algebra_simps)
      then show ?thesis by blast
    qed
    show ?thesis using r len mult by blast
  qed
  show ?thesis using off arr rt by blast
qed

text \<open>
  Two imaging samples \<open>1\<close> and \<open>\<i>\<close>, one behavioural sample halfway, \<open>c = pi / 2\<close>.
\<close>

theorem heading_offset_round_trip_witness:
  "valid_input [0, 1] [1, \<i>] [1 / 2] [pi / 4 + pi / 2] \<and> [1 / 2 :: real] \<noteq> []
   \<and> interp_angle [0, 1] [1, \<i>] [1 / 2] = Inr [pi / 4]
   \<and> list_all2 (\<lambda>x h. cis h = cis (x + pi / 2)) [pi / 4] [pi / 4 + pi / 2]
   \<and> compute_offset [0, 1] [1, \<i>] [1 / 2] [pi / 4 + pi / 2] = Inr (Fin (cis (- (pi / 2))))
   \<and> phase_arr (plot_phase_and_heading [0, 1] [1, \<i>] [1 / 2] [pi / 4 + pi / 2] [] True)
       = map (\<lambda>z. Fin (z * cis (pi / 2))) [1, \<i>]
   \<and> (\<exists>n :: int. roundtrip_error [0, 1] [1, \<i>] [1 / 2] [pi / 4 + pi / 2]
         = Some [2 * pi * of_int n])"
proof -
  have v: "valid_input [0, 1] [1, \<i>] [1 / 2] [pi / 4 + pi / 2]" by (simp add: valid_input_def)
  have ne: "[1 / 2 :: real] \<noteq> []" by simp
  have u: "np_unwrap [np_angle 1, np_angle \<i>] = [0, pi / 2]"
    by (simp add: np_angle_one np_angle_i np_unwrap_pair)
  have a: "interp_angle [0, 1] [1, \<i>] [1 / 2] = Inr [pi / 4]"
    by (simp add: interp_angle_def np_interp_def length_np_unwrap u interp_at_def search_index_def)
  have h: "list_all2 (\<lambda>x h. cis h = cis (x + pi / 2)) [pi / 4] [pi / 4 + pi / 2]" by simp
  have nz: "\<forall>z \<in> set [1, \<i>]. z \<noteq> 0" by simp
  have no: "no_opposite_neighbours [1, \<i>]"
    by (simp add: no_opposite_neighbours_def less_Suc_eq complex_eq_iff)
  note r = heading_offset_round_trip [OF v ne a h, of "[]"]
  from r nz no obtain errs where errs:
    "roundtrip_error [0, 1] [1, \<i>] [1 / 2] [pi / 4 + pi / 2] = Some errs"
    "length errs = length [1 / 2 :: real]" "\<forall>e \<in> set errs. \<exists>n :: int. e = 2 * pi * of_int n"
    by blast
  from errs(2) obtain e where e: "errs = [e]" by (cases errs) auto
  then obtain n :: int where "e = 2 * pi * of_int n" using errs(3) by auto
  then have "\<exists>n :: int. roundtrip_error [0, 1] [1, \<i>] [1 / 2] [pi / 4 + pi / 2]
         = Some [2 * pi * of_int n]"
    using errs(1) e by blast
  then show ?thesis
    using v ne a h r by blast
qed

end
